theory Spec2Isabelle
  imports Main
begin

section \<open>JavaScript strings\<close>

text \<open>
  A JavaScript string is modelled as a \<^typ>\<open>string\<close>: one \<^typ>\<open>char\<close> stands for one
  UTF-16 code unit in the range 0..255. In that range the white space of
  \<^verbatim>\<open>String.prototype.trim\<close> and of the regular expression class \<^verbatim>\<open>\s\<close> is TAB, LF, VT, FF,
  CR, SPACE and NBSP, and the line terminators (the characters that \<^verbatim>\<open>.\<close> does not match)
  are LF and CR.
\<close>

definition is_ws :: "char \<Rightarrow> bool" where
  "is_ws c = (c = CHR 0x09 \<or> c = CHR 0x0A \<or> c = CHR 0x0B \<or> c = CHR 0x0C \<or> c = CHR 0x0D
               \<or> c = CHR 0x20 \<or> c = CHR 0xA0)"

definition is_lt :: "char \<Rightarrow> bool" where
  "is_lt c = (c = CHR 0x0A \<or> c = CHR 0x0D)"

definition is_tick :: "char \<Rightarrow> bool" where
  "is_tick c = (c = CHR 0x60)"

definition is_alnum :: "char \<Rightarrow> bool" where
  "is_alnum c = (let n = (of_char c :: nat) in
     (48 \<le> n \<and> n \<le> 57) \<or> (65 \<le> n \<and> n \<le> 90) \<or> (97 \<le> n \<and> n \<le> 122))"

text \<open>\<^verbatim>\<open>s.trim()\<close>\<close>

definition trim :: "string \<Rightarrow> string" where
  "trim s = rev (dropWhile is_ws (rev (dropWhile is_ws s)))"

text \<open>\<^verbatim>\<open>s.startsWith(p)\<close>\<close>

definition startsWith :: "string \<Rightarrow> string \<Rightarrow> bool" where
  "startsWith s p = (take (length p) s = p)"

text \<open>\<^verbatim>\<open>s.includes(p)\<close>\<close>

fun includes_str :: "string \<Rightarrow> string \<Rightarrow> bool" where
  "includes_str [] p = (p = [])"
| "includes_str (c # cs) p = (startsWith (c # cs) p \<or> includes_str cs p)"

text \<open>\<^verbatim>\<open>s.split('\n')\<close>: never empty, \<^verbatim>\<open>''.split('\n')\<close> is \<^verbatim>\<open>['']\<close>.\<close>

fun split_nl :: "string \<Rightarrow> string list" where
  "split_nl [] = [[]]"
| "split_nl (c # cs) =
     (if c = CHR 0x0A then [] # split_nl cs
      else (case split_nl cs of [] \<Rightarrow> [[c]] | l # ls \<Rightarrow> (c # l) # ls))"

text \<open>\<^verbatim>\<open>ls.join('\n')\<close>\<close>

fun join_nl :: "string list \<Rightarrow> string" where
  "join_nl [] = []"
| "join_nl [l] = l"
| "join_nl (l # ls) = l @ CHR 0x0A # join_nl ls"


section \<open>diagram-utils.ts\<close>

subsection \<open>validateMermaidSyntax\<close>

record validation =
  valid :: bool
  error :: "string option"

definition validTypes :: "string list" where
  "validTypes = [''graph'', ''flowchart'', ''sequenceDiagram'', ''classDiagram'',
                 ''stateDiagram'', ''erDiagram'', ''gantt'']"

text \<open>
  The body of the \<^verbatim>\<open>try\<close> block. Nothing in it throws (\<^verbatim>\<open>trim\<close>, \<^verbatim>\<open>includes\<close> and
  \<^verbatim>\<open>some\<close> are total on strings), so the \<^verbatim>\<open>catch\<close> branch has no counterpart.
\<close>

definition validateMermaidSyntax :: "string \<Rightarrow> validation" where
  "validateMermaidSyntax code =
     (let trimmed = trim code in
      if trimmed = [] then \<lparr>valid = False, error = Some ''Empty diagram code''\<rparr>
      else if \<not> list_ex (\<lambda>type. includes_str trimmed type) validTypes
        then \<lparr>valid = False, error = Some ''Invalid or missing diagram type''\<rparr>
      else \<lparr>valid = True, error = None\<rparr>)"

subsection \<open>sanitizeMermaidText\<close>

text \<open>
  \<^verbatim>\<open>.replace(/<[^>]*>/g, ' ')\<close>: scanning from the left, a \<^verbatim>\<open><\<close> that has a \<^verbatim>\<open>>\<close>
  somewhere after it starts a match that ends at the first such \<^verbatim>\<open>>\<close>; the match is
  replaced by one space and the scan goes on behind it.
\<close>

function stripTags :: "string \<Rightarrow> string" where
  "stripTags [] = []"
| "stripTags (c # cs) =
     (if c = CHR ''<'' \<and> CHR ''>'' \<in> set cs
      then CHR '' '' # stripTags (tl (dropWhile (\<lambda>x. x \<noteq> CHR ''>'') cs))
      else c # stripTags cs)"
  by pat_completeness auto
termination
proof (relation "measure length")
  fix c :: char and cs :: string
  have "length (dropWhile (\<lambda>x. x \<noteq> CHR ''>'') cs) \<le> length cs"
    by (rule length_dropWhile_le)
  then show "(tl (dropWhile (\<lambda>x. x \<noteq> CHR ''>'') cs), c # cs) \<in> measure length"
    by simp
qed simp_all

text \<open>\<^verbatim>\<open>.replace(/\s+/g, ' ')\<close>: every maximal run of white space becomes one space.\<close>

function collapseSpaces :: "string \<Rightarrow> string" where
  "collapseSpaces [] = []"
| "collapseSpaces (c # cs) =
     (if is_ws c then CHR '' '' # collapseSpaces (dropWhile is_ws cs)
      else c # collapseSpaces cs)"
  by pat_completeness auto
termination
proof (relation "measure length")
  fix c :: char and cs :: string
  have "length (dropWhile is_ws cs) \<le> length cs"
    by (rule length_dropWhile_le)
  then show "(dropWhile is_ws cs, c # cs) \<in> measure length"
    by simp
qed simp_all

text \<open>The class \<^verbatim>\<open>[a-zA-Z0-9 .,;:!?()\-_]\<close>.\<close>

definition is_safe :: "char \<Rightarrow> bool" where
  "is_safe c = (is_alnum c \<or> c \<in> set '' .,;:!?()-_'')"

definition sanitizeMermaidText :: "string \<Rightarrow> string" where
  "sanitizeMermaidText text =
     (let s1 = stripTags text;
          s2 = filter (\<lambda>c. c \<notin> set ''`\"'' \<and> c \<noteq> CHR 0x27 \<and> c \<noteq> CHR ''<'' \<and> c \<noteq> CHR ''>'') s1;
          s3 = map (\<lambda>c. if c = CHR 0x5C \<or> c = CHR ''/'' then CHR '' '' else c) s2;
          s4 = map (\<lambda>c. if c = CHR 0x0A \<or> c = CHR 0x09 then CHR '' '' else c) s3;
          s5 = filter is_safe s4;
          s6 = collapseSpaces s5
      in trim s6)"

subsection \<open>sanitizeMermaidCode\<close>

text \<open>\<^verbatim>\<open>code.replace(/\r\n/g, '\n')\<close>\<close>

fun normalizeNewlines :: "string \<Rightarrow> string" where
  "normalizeNewlines (c # d # cs) =
     (if c = CHR 0x0D \<and> d = CHR 0x0A then CHR 0x0A # normalizeNewlines cs
      else c # normalizeNewlines (d # cs))"
| "normalizeNewlines cs = cs"

text \<open>
  \<^verbatim>\<open>commentIndex >= 0 ? line.substring(0, commentIndex) : line\<close> with
  \<^verbatim>\<open>commentIndex = line.indexOf('%%')\<close>.
\<close>

fun stripComment :: "string \<Rightarrow> string" where
  "stripComment (c # d # cs) =
     (if c = CHR ''%'' \<and> d = CHR ''%'' then [] else c # stripComment (d # cs))"
| "stripComment cs = cs"

text \<open>The condition of the \<^verbatim>\<open>// Skip directives\<close> branch.\<close>

definition isDirective :: "string \<Rightarrow> bool" where
  "isDirective trimmed =
     (startsWith trimmed ''classDef'' \<or> startsWith trimmed ''class '' \<or>
      startsWith trimmed ''click '' \<or> startsWith trimmed ''style '' \<or>
      startsWith trimmed ''linkStyle '')"

text \<open>
  The callback of \<^verbatim>\<open>lines.map\<close>. Its first two branches (empty line, directive) return
  before any other rewrite rule runs. Everything behind them (subgraph titles, the
  graph declaration, edge labels, shapes, the bare-node fallback) is the parameter
  \<open>other\<close>, applied to the trimmed line: what is proved about directive lines holds for
  every such continuation.
\<close>

definition processLine :: "(string \<Rightarrow> string) \<Rightarrow> string \<Rightarrow> string" where
  "processLine other line =
     (let trimmed = trim line in
      if trimmed = [] then []
      else if isDirective trimmed then trimmed
      else other trimmed)"

definition processedLines :: "(string \<Rightarrow> string) \<Rightarrow> string \<Rightarrow> string list" where
  "processedLines other code =
     (let sanitized = join_nl (map stripComment (split_nl (normalizeNewlines code)));
          lines = split_nl sanitized
      in map (processLine other) lines)"

definition sanitizeMermaidCode :: "(string \<Rightarrow> string) \<Rightarrow> string \<Rightarrow> string" where
  "sanitizeMermaidCode other code = join_nl (filter (\<lambda>l. l \<noteq> []) (processedLines other code))"

subsection \<open>generateMermaidFromJSON\<close>

text \<open>
  The data arrives from \<^verbatim>\<open>JSON.parse\<close>, so every optional or possibly missing property is
  an option: \<open>None\<close> is \<^verbatim>\<open>undefined\<close>.
\<close>

record mermaidNode =
  node_id :: string
  node_label :: "string option"
  node_shape :: "string option"

record mermaidEdge =
  edge_from :: string
  edge_to :: string
  edge_label :: "string option"
  edge_type :: "string option"

record mermaidDiagramData =
  direction :: "string option"
  nodes :: "mermaidNode list option"
  edges :: "mermaidEdge list option"

definition cleanLabel :: "string \<Rightarrow> string" where
  "cleanLabel text =
     (if text = [] then []
      else trim (map (\<lambda>c. if c = CHR 0x22 \<or> c = CHR 0x0A \<or> c = CHR 0x0D then CHR '' '' else c) text))"

definition cleanId :: "string \<Rightarrow> string" where
  "cleanId i = map (\<lambda>c. if is_alnum c then c else CHR ''_'') i"

definition getShape :: "string \<Rightarrow> string option \<Rightarrow> string option \<Rightarrow> string" where
  "getShape i label shape =
     (let safeId = cleanId i;
          clean = cleanLabel (case label of None \<Rightarrow> safeId
                              | Some l \<Rightarrow> if l = [] then safeId else l)
      in if shape = Some ''rounded'' then safeId @ ''(\"'' @ clean @ ''\")''
         else if shape = Some ''circle'' then safeId @ ''((\"'' @ clean @ ''\"))''
         else if shape = Some ''diamond'' then safeId @ ''{\"'' @ clean @ ''\"}''
         else if shape = Some ''database'' then safeId @ ''[(\"'' @ clean @ ''\")]''
         else if shape = Some ''cloud'' then safeId @ ''((\"'' @ clean @ ''\"))''
         else if shape = Some ''hexagon'' then safeId @ ''{{\"'' @ clean @ ''\"}}''
         else safeId @ ''[\"'' @ clean @ ''\"]'')"

definition getEdge :: "string option \<Rightarrow> string option \<Rightarrow> string" where
  "getEdge type label =
     (let clean = (case label of None \<Rightarrow> [] | Some l \<Rightarrow> if l = [] then [] else cleanLabel l);
          labelPart = (if clean = [] then [] else ''|\"'' @ clean @ ''\"|'')
      in if type = Some ''dotted'' then ''-.->'' @ labelPart
         else if type = Some ''thick'' then ''==>'' @ labelPart
         else if type = Some ''line'' then ''---'' @ labelPart
         else ''-->'' @ labelPart)"

definition generateMermaidFromJSON :: "mermaidDiagramData \<Rightarrow> string" where
  "generateMermaidFromJSON data =
     (let dir = (case direction data of None \<Rightarrow> ''TD'' | Some d \<Rightarrow> d);
          ns = (case nodes data of None \<Rightarrow> [] | Some l \<Rightarrow> l);
          es = (case edges data of None \<Rightarrow> [] | Some l \<Rightarrow> l);
          lines = [''graph '' @ dir]
                  @ map (\<lambda>n. ''  '' @ getShape (node_id n) (node_label n) (node_shape n)) ns
                  @ map (\<lambda>e. ''  '' @ cleanId (edge_from e) @ '' '' @ getEdge (edge_type e) (edge_label e)
                                @ '' '' @ cleanId (edge_to e)) es
      in join_nl lines)"


section \<open>markdown-utils.ts\<close>

subsection \<open>The regular expressions\<close>

text \<open>
  \<^verbatim>\<open>s.match(/^(`+)(.*)$/)\<close>, as the pair of its two groups. The first group takes the
  whole leading backtick run; \<^verbatim>\<open>.\<close> matches no line terminator and \<^verbatim>\<open>$\<close> (there is no
  \<^verbatim>\<open>m\<close> flag) only the end of the string, so there is a match exactly when the run is not
  empty and no line terminator follows it. Backtracking into the run cannot repair a
  failure, since the failing line terminator stays in place.
\<close>

definition matchTicksRest :: "string \<Rightarrow> (string \<times> string) option" where
  "matchTicksRest s =
     (let ticks = takeWhile is_tick s; rest = dropWhile is_tick s in
      if ticks \<noteq> [] \<and> \<not> list_ex is_lt rest then Some (ticks, rest) else None)"

text \<open>\<^verbatim>\<open>s.match(/^(`{3,})(.*)$/)\<close>\<close>

definition matchTicks3Rest :: "string \<Rightarrow> (string \<times> string) option" where
  "matchTicks3Rest s =
     (let ticks = takeWhile is_tick s; rest = dropWhile is_tick s in
      if 3 \<le> length ticks \<and> \<not> list_ex is_lt rest then Some (ticks, rest) else None)"

text \<open>\<^verbatim>\<open>s.match(/^(\s*)(`+)(.*)$/)\<close>, as the triple of its groups.\<close>

definition matchIndentTicksRest :: "string \<Rightarrow> (string \<times> string \<times> string) option" where
  "matchIndentTicksRest s =
     (case matchTicksRest (dropWhile is_ws s) of
        None \<Rightarrow> None
      | Some (ticks, rest) \<Rightarrow> Some (takeWhile is_ws s, ticks, rest))"

text \<open>\<^verbatim>\<open>s.match(/^(\s*)(`+)/)\<close>\<close>

definition matchIndentTicks :: "string \<Rightarrow> (string \<times> string) option" where
  "matchIndentTicks s =
     (let ticks = takeWhile is_tick (dropWhile is_ws s) in
      if ticks \<noteq> [] then Some (takeWhile is_ws s, ticks) else None)"

text \<open>\<^verbatim>\<open>'`'.repeat(n)\<close>\<close>

definition repeatTick :: "nat \<Rightarrow> string" where
  "repeatTick n = replicate n (CHR 0x60)"

subsection \<open>Fence lines and blocks\<close>

record fence =
  index :: nat
  lengthF :: nat
  info :: string
  raw :: string

record block =
  start :: nat
  endIdx :: nat
  fenceLength :: nat

text \<open>The callback of \<^verbatim>\<open>lines.map\<close> that builds \<^verbatim>\<open>fenceLines\<close>; \<open>None\<close> is \<^verbatim>\<open>null\<close>.\<close>

definition fenceOf :: "nat \<Rightarrow> string \<Rightarrow> fence option" where
  "fenceOf idx line =
     (let trimmed = trim line in
      if \<not> startsWith trimmed ''```'' then None
      else (case matchTicksRest trimmed of
              None \<Rightarrow> None
            | Some (ticks, rest) \<Rightarrow>
                Some \<lparr>index = idx, lengthF = length ticks, info = trim rest, raw = line\<rparr>))"

text \<open>\<^verbatim>\<open>lines.map(...).filter(Boolean)\<close>, for the lines from position \<open>idx\<close> on.\<close>

fun fenceLinesFrom :: "nat \<Rightarrow> string list \<Rightarrow> fence list" where
  "fenceLinesFrom idx [] = []"
| "fenceLinesFrom idx (line # ls) =
     (case fenceOf idx line of
        None \<Rightarrow> fenceLinesFrom (Suc idx) ls
      | Some f \<Rightarrow> f # fenceLinesFrom (Suc idx) ls)"

text \<open>
  The loop that pairs openers with closers, with its two variables
  \<^verbatim>\<open>currentBlockStartFence\<close> and \<^verbatim>\<open>blocks\<close> as the state.
\<close>

fun pairFences :: "fence option \<Rightarrow> block list \<Rightarrow> fence list \<Rightarrow> fence option \<times> block list" where
  "pairFences cur blocks [] = (cur, blocks)"
| "pairFences None blocks (f # fs) = pairFences (Some f) blocks fs"
| "pairFences (Some c) blocks (f # fs) =
     (if lengthF c \<le> lengthF f \<and> info f = []
      then pairFences None
             (blocks @ [\<lparr>start = index c, endIdx = index f, fenceLength = lengthF c\<rparr>]) fs
      else pairFences (Some c) blocks fs)"

subsection \<open>The three repairs of one pass\<close>

text \<open>
  Step 2.5, for a dangling opener \<open>cur\<close>. \<open>Inl\<close> is the \<^verbatim>\<open>continue\<close> with the changed
  lines, \<open>Inr\<close> the block list the pass goes on with. Every index read here is the index
  of an element of \<^verbatim>\<open>fenceLines\<close>, hence in range.
\<close>

definition handleUnclosed ::
  "string list \<Rightarrow> fence list \<Rightarrow> block list \<Rightarrow> fence \<Rightarrow> string list + block list" where
  "handleUnclosed lines fenceLines blocks cur =
     (case find (\<lambda>f. index cur < index f \<and> info f = [] \<and> lengthF cur \<le> lengthF f) fenceLines of
        Some nextFence \<Rightarrow>
          if lengthF nextFence < lengthF cur then
            (let newFenceStr = repeatTick (lengthF cur);
                 endLine = lines ! index nextFence;
                 endIndent = (case matchIndentTicks endLine of Some (ws, t) \<Rightarrow> ws | None \<Rightarrow> [])
             in Inl (lines[index nextFence := endIndent @ newFenceStr]))
          else Inr (blocks @ [\<lparr>start = index cur, endIdx = index nextFence,
                               fenceLength = lengthF cur\<rparr>])
      | None \<Rightarrow>
          (let newFenceStr = repeatTick (lengthF cur);
               startLine = lines ! index cur;
               indent = takeWhile is_ws startLine
           in Inl (lines @ [indent @ newFenceStr])))"

text \<open>
  The rewrite shared by steps 3 and 4: the opener line gets \<open>newLength\<close> backticks and
  keeps its indentation and info string, the line at \<open>closer\<close> becomes its own indentation
  followed by \<open>newLength\<close> backticks. \<open>None\<close>: \<^verbatim>\<open>startMatch\<close> is \<^verbatim>\<open>null\<close>, nothing is written.
\<close>

definition widen :: "string list \<Rightarrow> nat \<Rightarrow> nat \<Rightarrow> nat \<Rightarrow> string list option" where
  "widen lines opener closer newLength =
     (let newFenceStr = repeatTick newLength;
          startLine = lines ! opener
      in case matchIndentTicksRest startLine of
           None \<Rightarrow> None
         | Some (indent, ticks, infoStr) \<Rightarrow>
             (let lines1 = lines[opener := indent @ newFenceStr @ infoStr];
                  endLine = lines1 ! closer;
                  endIndent = (case matchIndentTicks endLine of Some (ws, t) \<Rightarrow> ws | None \<Rightarrow> indent)
              in Some (lines1[closer := endIndent @ newFenceStr])))"

text \<open>\<^verbatim>\<open>lines.slice(a, b)\<close> for non-negative \<open>a\<close>, \<open>b\<close>.\<close>

definition slice :: "nat \<Rightarrow> nat \<Rightarrow> 'a list \<Rightarrow> 'a list" where
  "slice a b xs = take (b - a) (drop a xs)"

text \<open>
  Step 3 (reactive repair): the loop over \<^verbatim>\<open>blocks\<close>, \<open>bs\<close> being the blocks still to
  visit. \<open>Some\<close> is the \<^verbatim>\<open>break\<close> after a change.
\<close>

fun reactive :: "string list \<Rightarrow> fence list \<Rightarrow> block list \<Rightarrow> block list \<Rightarrow> string list option" where
  "reactive lines fenceLines blocks [] = None"
| "reactive lines fenceLines blocks (b # bs) =
     (case find (\<lambda>f. endIdx b < index f) fenceLines of
        None \<Rightarrow> reactive lines fenceLines blocks bs
      | Some nextFence \<Rightarrow>
          (let isNextFenceStart = list_ex (\<lambda>b'. start b' = index nextFence) blocks;
               contentBetween = trim (concat (slice (endIdx b + 1) (index nextFence) lines))
           in if (\<not> isNextFenceStart \<or> contentBetween = []) \<and> info nextFence = [] then
                (case widen lines (start b) (index nextFence) (fenceLength b + 1) of
                   Some lines' \<Rightarrow> Some lines'
                 | None \<Rightarrow> reactive lines fenceLines blocks bs)
              else reactive lines fenceLines blocks bs))"

text \<open>The inner loop of step 4 over the lines strictly inside the block.\<close>

definition maxInnerBackticks :: "string list \<Rightarrow> block \<Rightarrow> nat" where
  "maxInnerBackticks lines b =
     foldl (\<lambda>m j. case matchTicks3Rest (trim (lines ! j)) of
                     None \<Rightarrow> m
                   | Some (ticks, rest) \<Rightarrow> if trim rest = [] then max m (length ticks) else m)
           0 [start b + 1 ..< endIdx b]"

text \<open>Step 4 (proactive repair).\<close>

fun proactive :: "string list \<Rightarrow> block list \<Rightarrow> string list option" where
  "proactive lines [] = None"
| "proactive lines (b # bs) =
     (let m = maxInnerBackticks lines b in
      if fenceLength b \<le> m then
        (case widen lines (start b) (endIdx b) (m + 1) of
           Some lines' \<Rightarrow> Some lines'
         | None \<Rightarrow> proactive lines bs)
      else proactive lines bs)"

subsection \<open>repairMarkdown\<close>

text \<open>One iteration of the \<^verbatim>\<open>for\<close> loop: the lines after it, and \<^verbatim>\<open>changesMade\<close>.\<close>

definition repairPass :: "string list \<Rightarrow> string list \<times> bool" where
  "repairPass lines =
     (let fenceLines = fenceLinesFrom 0 lines in
      case pairFences None [] fenceLines of
        (cur, blocks0) \<Rightarrow>
          (case (case cur of None \<Rightarrow> Inr blocks0
                 | Some c \<Rightarrow> handleUnclosed lines fenceLines blocks0 c) of
             Inl lines' \<Rightarrow> (lines', True)
           | Inr blocks \<Rightarrow>
               (case reactive lines fenceLines blocks blocks of
                  Some lines' \<Rightarrow> (lines', True)
                | None \<Rightarrow>
                    (case proactive lines blocks of
                       Some lines' \<Rightarrow> (lines', True)
                     | None \<Rightarrow> (lines, False)))))"

text \<open>
  The \<^verbatim>\<open>for\<close> loop with \<open>n\<close> passes left. The flag of the result tells how the loop
  ended: \<open>True\<close> by the final \<^verbatim>\<open>break\<close> (a pass changed nothing), \<open>False\<close> by running out of
  passes.
\<close>

fun repairLoop :: "nat \<Rightarrow> string list \<Rightarrow> string list \<times> bool" where
  "repairLoop 0 lines = (lines, False)"
| "repairLoop (Suc n) lines =
     (case repairPass lines of
        (lines', changesMade) \<Rightarrow> if changesMade then repairLoop n lines' else (lines', True))"

definition repairMarkdown :: "string \<Rightarrow> string" where
  "repairMarkdown content =
     (if \<not> includes_str content ''```'' then content
      else join_nl (fst (repairLoop 3 (split_nl content))))"

section \<open>Auxiliary notions for the proofs\<close>

text \<open>Two neighbouring white-space characters somewhere in a string.\<close>

fun adjacent_ws :: "string \<Rightarrow> bool" where
  "adjacent_ws (x # y # r) = ((is_ws x \<and> is_ws y) \<or> adjacent_ws (y # r))"
| "adjacent_ws r = False"

text \<open>The length of the backtick run of a line, behind its leading white space.\<close>

definition tickCount :: "string \<Rightarrow> nat" where
  "tickCount l = length (takeWhile is_tick (dropWhile is_ws l))"

text \<open>What follows the backtick run of a line, and that text trimmed: the info string.\<close>

definition restOf :: "string \<Rightarrow> string" where
  "restOf l = dropWhile is_tick (dropWhile is_ws l)"

definition lineInfo :: "string \<Rightarrow> string" where
  "lineInfo l = trim (restOf l)"

text \<open>
  A block that joins two fence lines of the set \<open>S\<close>: the opener stands before the
  closer, and the closer has an empty info string.
\<close>

definition blockOf :: "fence set \<Rightarrow> block \<Rightarrow> bool" where
  "blockOf S b = (\<exists>c\<in>S. \<exists>f\<in>S. start b = index c \<and> endIdx b = index f \<and>
     fenceLength b = lengthF c \<and> index c < index f \<and> info f = [])"

text \<open>
  The line \<open>l\<close> rewritten as an opener with \<open>n\<close> backticks (leading white space and
  everything behind the run kept), and rewritten as a closing line with \<open>n\<close> backticks
  (leading white space kept, nothing behind the run).
\<close>

definition newOpener :: "string \<Rightarrow> nat \<Rightarrow> string" where
  "newOpener l n = takeWhile is_ws l @ repeatTick n @ restOf l"

definition newCloser :: "string \<Rightarrow> nat \<Rightarrow> string" where
  "newCloser l n = takeWhile is_ws l @ repeatTick n"

text \<open>
  What a pass that changes something does to the lines: it appends a closing line for
  a fence line \<open>cur\<close>, or it rewrites an opener \<open>c\<close> with a longer run \<open>n\<close> and rewrites
  a later fence line \<open>f\<close> with empty info string as a closing line with \<open>n\<close> backticks.
\<close>

definition passStep :: "string list \<Rightarrow> string list \<Rightarrow> bool" where
  "passStep ls ls' =
     ((\<exists>cur\<in>set (fenceLinesFrom 0 ls).
         ls' = ls @ [newCloser (ls ! index cur) (lengthF cur)])
    \<or> (\<exists>c\<in>set (fenceLinesFrom 0 ls). \<exists>f\<in>set (fenceLinesFrom 0 ls). \<exists>n.
         lengthF c < n \<and> index c < index f \<and> info f = [] \<and>
         ls' = (ls[index c := newOpener (ls ! index c) n])[index f := newCloser (ls ! index f) n]))"

text \<open>Every fence line of \<open>ls\<close> before position \<open>i\<close> has at least \<open>m\<close> backticks.\<close>

definition minFenceBelow :: "nat \<Rightarrow> nat \<Rightarrow> string list \<Rightarrow> bool" where
  "minFenceBelow i m ls =
     (\<forall>j<i. j < length ls \<longrightarrow> (\<forall>g. fenceOf j (ls ! j) = Some g \<longrightarrow> m \<le> lengthF g))"

text \<open>
  How the line \<open>l\<close> can stand for the input line \<open>l0\<close> after some passes: unchanged,
  rewritten as an opener, or (only for an empty info string) rewritten as a closing
  line.
\<close>

definition lineForm :: "string \<Rightarrow> string \<Rightarrow> bool" where
  "lineForm l0 l = (l = l0 \<or> (\<exists>k>0. l = newOpener l0 k)
                    \<or> (lineInfo l0 = [] \<and> (\<exists>k>0. l = newCloser l0 k)))"

text \<open>No line contains a line feed, as after \<^verbatim>\<open>split('\n')\<close>.\<close>

definition noNewline :: "string list \<Rightarrow> bool" where
  "noNewline ls = (\<forall>l\<in>set ls. CHR 0x0A \<notin> set l)"

text \<open>
  The loop with \<open>n\<close> passes left uses all of them, and its last pass changes the lines
  although it finds every opener paired: the last pass is a rewrite of step 3 or 4,
  not the appending of a closing line.
\<close>

fun lastPassRewrites :: "nat \<Rightarrow> string list \<Rightarrow> bool" where
  "lastPassRewrites 0 ls = False"
| "lastPassRewrites (Suc n) ls =
     (case repairPass ls of
        (ls', changesMade) \<Rightarrow>
          if \<not> changesMade then False
          else if n = 0 then fst (pairFences None [] (fenceLinesFrom 0 ls)) = None
          else lastPassRewrites n ls')"

section \<open>Lemmas on strings\<close>

lemma set_trim: "set (trim s) \<subseteq> set s"
proof
  fix c assume "c \<in> set (trim s)"
  then have "c \<in> set (dropWhile is_ws (rev (dropWhile is_ws s)))"
    by (simp add: trim_def)
  then have "c \<in> set (rev (dropWhile is_ws s))" by (rule set_dropWhileD)
  then have "c \<in> set (dropWhile is_ws s)" by simp
  then show "c \<in> set s" by (rule set_dropWhileD)
qed


lemma trim_decomp: "\<exists>a b. s = a @ trim s @ b"
proof -
  let ?u = "dropWhile is_ws s"
  have 1: "s = takeWhile is_ws s @ ?u" by simp
  have "trim s @ rev (takeWhile is_ws (rev ?u))
        = rev (takeWhile is_ws (rev ?u) @ dropWhile is_ws (rev ?u))"
    by (simp only: trim_def rev_append)
  also have "\<dots> = ?u"
    by (simp only: takeWhile_dropWhile_id rev_rev_ident)
  finally have 2: "?u = trim s @ rev (takeWhile is_ws (rev ?u))" by simp
  from 1 2 have "s = takeWhile is_ws s @ trim s @ rev (takeWhile is_ws (rev ?u))"
    by metis
  then show ?thesis by blast
qed

lemma trim_hd: "trim s \<noteq> [] \<Longrightarrow> \<not> is_ws (hd (trim s))"
proof -
  assume ne: "trim s \<noteq> []"
  let ?u = "dropWhile is_ws s"
  let ?v = "dropWhile is_ws (rev ?u)"
  from ne have vne: "?v \<noteq> []" by (simp add: trim_def)
  have une: "?u \<noteq> []"
  proof
    assume a: "?u = []"
    from vne show False unfolding a by simp
  qed
  have "rev ?u = takeWhile is_ws (rev ?u) @ ?v" by simp
  then have "last (rev ?u) = last ?v" using vne by (metis last_appendR)
  then have "hd ?u = last ?v" using une by (simp add: last_rev)
  moreover have "hd (trim s) = last ?v" using vne by (simp add: trim_def hd_rev)
  moreover have "\<not> is_ws (hd ?u)" using une by (rule hd_dropWhile)
  ultimately show ?thesis by simp
qed

lemma trim_last: "trim s \<noteq> [] \<Longrightarrow> \<not> is_ws (last (trim s))"
proof -
  assume ne: "trim s \<noteq> []"
  let ?v = "dropWhile is_ws (rev (dropWhile is_ws s))"
  from ne have vne: "?v \<noteq> []" by (simp add: trim_def)
  then have "\<not> is_ws (hd ?v)" by (rule hd_dropWhile)
  moreover have "last (trim s) = hd ?v" using vne by (simp add: trim_def last_rev)
  ultimately show ?thesis by simp
qed

lemma split_nl_nonempty: "split_nl s \<noteq> []"
  by (induction s) (auto split: list.splits)

lemma split_nl_no_newline: "l \<in> set (split_nl s) \<Longrightarrow> CHR 0x0A \<notin> set l"
proof (induction s arbitrary: l)
  case Nil
  then show ?case by simp
next
  case (Cons c cs)
  show ?case
  proof (cases "c = CHR 0x0A")
    case True
    with Cons show ?thesis by auto
  next
    case False
    obtain h t where ht: "split_nl cs = h # t"
      using split_nl_nonempty [of cs] by (cases "split_nl cs") auto
    with Cons.prems False have "l = c # h \<or> l \<in> set t" by simp
    then show ?thesis
    proof
      assume "l = c # h"
      moreover have "CHR 0x0A \<notin> set h" using Cons.IH [of h] ht by simp
      ultimately show ?thesis using False by auto
    next
      assume "l \<in> set t"
      then show ?thesis using Cons.IH [of l] ht by simp
    qed
  qed
qed

lemma join_split_nl: "join_nl (split_nl s) = s"
proof (induction s)
  case Nil
  then show ?case by simp
next
  case (Cons c cs)
  obtain h t where ht: "split_nl cs = h # t"
    using split_nl_nonempty [of cs] by (cases "split_nl cs") auto
  show ?case
  proof (cases "c = CHR 0x0A")
    case True
    with Cons ht show ?thesis by simp
  next
    case False
    with Cons ht show ?thesis by (cases t) auto
  qed
qed

lemma split_nl_line: "CHR 0x0A \<notin> set l \<Longrightarrow> split_nl l = [l]"
  by (induction l) auto

lemma split_nl_append:
  "CHR 0x0A \<notin> set l \<Longrightarrow> split_nl (l @ CHR 0x0A # r) = l # split_nl r"
  by (induction l) auto

lemma split_join_nl:
  "ls \<noteq> [] \<Longrightarrow> \<forall>l\<in>set ls. CHR 0x0A \<notin> set l \<Longrightarrow> split_nl (join_nl ls) = ls"
proof (induction ls rule: join_nl.induct)
  case 1
  then show ?case by simp
next
  case (2 l)
  then show ?case by (simp add: split_nl_line)
next
  case (3 l v va)
  then show ?case by (simp add: split_nl_append)
qed

section \<open>The validator\<close>

text \<open>
  Claim C7. On the three inputs of the specification the validator answers as stated:
  the empty string is rejected with the error \<^verbatim>\<open>Empty diagram code\<close>, the text
  \<^verbatim>\<open>just some prose\<close> is rejected (it contains no diagram type keyword), and
  \<^verbatim>\<open>graph TD\nA-->B\<close> is accepted.
\<close>

theorem validate_examples:
  "validateMermaidSyntax '''' = \<lparr>valid = False, error = Some ''Empty diagram code''\<rparr>
   \<and> valid (validateMermaidSyntax ''just some prose'') = False
   \<and> valid (validateMermaidSyntax ''graph TD\<newline>A-->B'') = True"
  by (simp add: validateMermaidSyntax_def trim_def is_ws_def validTypes_def startsWith_def)

section \<open>Generation from a graph specification\<close>

text \<open>
  Claim C8. For the graph specification with direction \<^verbatim>\<open>LR\<close>, the single node
  \<^verbatim>\<open>{id: "a-1", label: "Start"}\<close> and the single edge from \<^verbatim>\<open>a-1\<close> to \<^verbatim>\<open>a-1\<close>, the generated
  code is exactly \<^verbatim>\<open>graph LR\n  a_1["Start"]\n  a_1 --> a_1\<close>.
\<close>

theorem generate_example:
  "generateMermaidFromJSON
     \<lparr>direction = Some ''LR'',
      nodes = Some [\<lparr>node_id = ''a-1'', node_label = Some ''Start'', node_shape = None\<rparr>],
      edges = Some [\<lparr>edge_from = ''a-1'', edge_to = ''a-1'', edge_label = None,
                     edge_type = None\<rparr>]\<rparr>
   = ''graph LR\<newline>  a_1[\"Start\"]\<newline>  a_1 --> a_1''"
  by (simp add: generateMermaidFromJSON_def getShape_def getEdge_def cleanId_def cleanLabel_def
      trim_def is_ws_def is_alnum_def)











section \<open>Text sanitization\<close>

lemma adjacent_ws_appendR: "\<not> adjacent_ws (a @ t) \<Longrightarrow> \<not> adjacent_ws t"
proof (induction a)
  case Nil then show ?case by simp
next
  case (Cons x a)
  then show ?case by (cases "a @ t") auto
qed

lemma adjacent_ws_appendL: "\<not> adjacent_ws (t @ b) \<Longrightarrow> \<not> adjacent_ws t"
proof (induction t rule: adjacent_ws.induct)
  case (1 x y r) then show ?case by auto
qed auto

lemma adjacent_ws_nth:
  "\<not> adjacent_ws s \<Longrightarrow> Suc i < length s \<Longrightarrow> \<not> (is_ws (s ! i) \<and> is_ws (s ! Suc i))"
proof (induction s arbitrary: i rule: adjacent_ws.induct)
  case (1 x y r)
  then show ?case by (cases i) auto
qed auto

lemma collapseSpaces_set: "set (collapseSpaces s) \<subseteq> insert (CHR '' '') (set s)"
proof (induction s rule: collapseSpaces.induct)
  case 1 then show ?case by simp
next
  case (2 c cs)
  show ?case
  proof (cases "is_ws c")
    case True
    with 2 have "set (collapseSpaces (dropWhile is_ws cs)) \<subseteq> insert (CHR '' '') (set (dropWhile is_ws cs))"
      by simp
    moreover have "set (dropWhile is_ws cs) \<subseteq> set cs" by (auto dest: set_dropWhileD)
    ultimately show ?thesis using True by auto
  next
    case False
    with 2 show ?thesis by auto
  qed
qed

lemma collapseSpaces_hd:
  "collapseSpaces s \<noteq> [] \<Longrightarrow> is_ws (hd (collapseSpaces s)) \<Longrightarrow> s \<noteq> [] \<and> is_ws (hd s)"
  by (cases s) (auto split: if_splits)

lemma collapseSpaces_no_adjacent: "\<not> adjacent_ws (collapseSpaces s)"
proof (induction s rule: collapseSpaces.induct)
  case 1 then show ?case by simp
next
  case (2 c cs)
  show ?case
  proof (cases "is_ws c")
    case True
    let ?r = "collapseSpaces (dropWhile is_ws cs)"
    from 2 True have ih: "\<not> adjacent_ws ?r" by simp
    have "?r = [] \<or> \<not> is_ws (hd ?r)"
    proof (cases "?r = []")
      case False
      have "\<not> is_ws (hd ?r)"
      proof
        assume "is_ws (hd ?r)"
        with False have "dropWhile is_ws cs \<noteq> [] \<and> is_ws (hd (dropWhile is_ws cs))"
          by (rule collapseSpaces_hd)
        then show False using hd_dropWhile by blast
      qed
      then show ?thesis ..
    qed simp
    then show ?thesis using True ih by (cases ?r) auto
  next
    case False
    let ?r = "collapseSpaces cs"
    from 2 False have ih: "\<not> adjacent_ws ?r" by simp
    then show ?thesis using False by (cases ?r) auto
  qed
qed

text \<open>
  Claim C6. For every input string, the sanitized text contains only letters, digits,
  the space and the punctuation characters \<^verbatim>\<open>. , ; : ! ? ( ) - _\<close>; it has no two white-space
  characters in a row, and it neither starts nor ends with white space.
\<close>

theorem sanitized_text_safe:
  "(\<forall>c \<in> set (sanitizeMermaidText text). is_alnum c \<or> c \<in> set '' .,;:!?()-_'')
   \<and> (\<forall>i. Suc i < length (sanitizeMermaidText text) \<longrightarrow>
          \<not> (is_ws (sanitizeMermaidText text ! i) \<and> is_ws (sanitizeMermaidText text ! Suc i)))
   \<and> (sanitizeMermaidText text \<noteq> [] \<longrightarrow>
          \<not> is_ws (hd (sanitizeMermaidText text)) \<and> \<not> is_ws (last (sanitizeMermaidText text)))"
proof -
  obtain s5 where out: "sanitizeMermaidText text = trim (collapseSpaces (filter is_safe s5))"
    by (simp add: sanitizeMermaidText_def Let_def)
  let ?s6 = "collapseSpaces (filter is_safe s5)"
  have safe: "\<forall>c \<in> set (trim ?s6). is_safe c"
  proof
    fix c assume "c \<in> set (trim ?s6)"
    then have "c \<in> set ?s6" using set_trim by blast
    then have "c = CHR '' '' \<or> c \<in> set (filter is_safe s5)"
      using collapseSpaces_set by blast
    then show "is_safe c" by (auto simp: is_safe_def)
  qed
  obtain a b where dec: "?s6 = a @ trim ?s6 @ b" using trim_decomp by blast
  have "\<not> adjacent_ws (a @ trim ?s6 @ b)"
    using collapseSpaces_no_adjacent [of "filter is_safe s5"] dec by simp
  then have "\<not> adjacent_ws (trim ?s6 @ b)" by (rule adjacent_ws_appendR)
  then have nadj: "\<not> adjacent_ws (trim ?s6)" by (rule adjacent_ws_appendL)
  have c1: "\<forall>c \<in> set (trim ?s6). is_alnum c \<or> c \<in> set '' .,;:!?()-_''"
    using safe unfolding is_safe_def .
  have c2: "\<forall>i. Suc i < length (trim ?s6) \<longrightarrow>
          \<not> (is_ws (trim ?s6 ! i) \<and> is_ws (trim ?s6 ! Suc i))"
    using nadj adjacent_ws_nth by blast
  have c3: "trim ?s6 \<noteq> [] \<longrightarrow> \<not> is_ws (hd (trim ?s6)) \<and> \<not> is_ws (last (trim ?s6))"
    using trim_hd trim_last by blast
  show ?thesis
    unfolding out using c1 c2 c3 by (intro conjI)
qed

theorem sanitized_text_safe_witness:
  "sanitizeMermaidText ''<b>Hi</b>  \"you\"/x <y#'' = ''Hi you x y''
   \<and> list_all (\<lambda>c. is_alnum c \<or> c \<in> set '' .,;:!?()-_'') ''Hi you x y''
   \<and> \<not> is_ws (hd ''Hi you x y'') \<and> \<not> is_ws (last ''Hi you x y'')"
proof -
  have e: "sanitizeMermaidText ''<b>Hi</b>  \"you\"/x <y#'' = ''Hi you x y''"
    by (simp add: sanitizeMermaidText_def is_safe_def is_alnum_def is_ws_def trim_def)
  have "\<forall>c \<in> set ''Hi you x y''. is_alnum c \<or> c \<in> set '' .,;:!?()-_''"
    using sanitized_text_safe [of "''<b>Hi</b>  \"you\"/x <y#''"] unfolding e by blast
  moreover have "\<not> is_ws (hd ''Hi you x y'') \<and> \<not> is_ws (last ''Hi you x y'')"
    using sanitized_text_safe [of "''<b>Hi</b>  \"you\"/x <y#''"] unfolding e by simp
  ultimately show ?thesis
    using e by (simp only: list_all_iff) simp
qed

section \<open>Directive lines\<close>

lemma set_stripComment: "set (stripComment l) \<subseteq> set l"
  by (induction l rule: stripComment.induct) auto

lemma processedLines_eq:
  "processedLines other code
     = map (\<lambda>l. processLine other (stripComment l)) (split_nl (normalizeNewlines code))"
proof -
  let ?ls = "map stripComment (split_nl (normalizeNewlines code))"
  have "?ls \<noteq> []" using split_nl_nonempty by simp
  moreover have "\<forall>l\<in>set ?ls. CHR 0x0A \<notin> set l"
    using split_nl_no_newline set_stripComment by fastforce
  ultimately have "split_nl (join_nl ?ls) = ?ls" by (rule split_join_nl)
  then show ?thesis by (simp add: processedLines_def Let_def comp_def)
qed

text \<open>
  Claim C9, as stated: the output line of a directive line is identical to the input
  line. It fails for an indented directive line, which comes out without its
  indentation.
\<close>

theorem directive_line_counterexample:
  "split_nl ''graph TD\<newline>  style A fill:red'' ! 1 = ''  style A fill:red''
   \<and> isDirective (trim ''  style A fill:red'')
   \<and> split_nl (sanitizeMermaidCode id ''graph TD\<newline>  style A fill:red'') ! 1 = ''style A fill:red''
   \<and> split_nl (sanitizeMermaidCode id ''graph TD\<newline>  style A fill:red'') ! 1
       \<noteq> split_nl ''graph TD\<newline>  style A fill:red'' ! 1"
  by (simp add: sanitizeMermaidCode_def processedLines_def processLine_def isDirective_def
      startsWith_def trim_def is_ws_def)

text \<open>
  Claim C9, amended. Line \<open>i\<close> of the code (after the normalization of \<^verbatim>\<open>\r\n\<close>) whose
  content, once its comment is cut off and it is trimmed, starts with \<^verbatim>\<open>classDef\<close>,
  \<^verbatim>\<open>class \<close>, \<^verbatim>\<open>click \<close>, \<^verbatim>\<open>style \<close> or \<^verbatim>\<open>linkStyle \<close>, is processed to exactly that
  trimmed, comment-free content and to nothing else: no label rewriting touches it,
  and since it is not empty it is kept in the output, which is the processed lines
  without the empty ones, joined by newlines.
\<close>

theorem directive_line_trimmed:
  assumes "i < length (split_nl (normalizeNewlines code))"
    and "isDirective (trim (stripComment (split_nl (normalizeNewlines code) ! i)))"
  shows "length (processedLines other code) = length (split_nl (normalizeNewlines code))
    \<and> processedLines other code ! i = trim (stripComment (split_nl (normalizeNewlines code) ! i))
    \<and> processedLines other code ! i \<in> set (filter (\<lambda>l. l \<noteq> []) (processedLines other code))
    \<and> sanitizeMermaidCode other code = join_nl (filter (\<lambda>l. l \<noteq> []) (processedLines other code))"
proof -
  let ?t = "trim (stripComment (split_nl (normalizeNewlines code) ! i))"
  have len: "length (processedLines other code) = length (split_nl (normalizeNewlines code))"
    by (simp add: processedLines_eq)
  have ne: "?t \<noteq> []"
    using assms(2) by (auto simp: isDirective_def startsWith_def)
  have nth: "processedLines other code ! i = ?t"
    using assms ne by (simp add: processedLines_eq processLine_def Let_def)
  have "processedLines other code ! i \<in> set (processedLines other code)"
    using assms(1) len by simp
  then have mem: "processedLines other code ! i \<in> set (filter (\<lambda>l. l \<noteq> []) (processedLines other code))"
    using nth ne by simp
  show ?thesis
    using len nth mem by (simp add: sanitizeMermaidCode_def)
qed

theorem directive_line_trimmed_witness:
  "1 < length (split_nl (normalizeNewlines ''graph TD\<newline>  style A fill:red %% note''))
   \<and> isDirective (trim (stripComment ''  style A fill:red %% note''))
   \<and> processedLines id ''graph TD\<newline>  style A fill:red %% note'' ! 1 = ''style A fill:red''"
proof -
  have s: "split_nl (normalizeNewlines ''graph TD\<newline>  style A fill:red %% note'')
           = [''graph TD'', ''  style A fill:red %% note'']"
    by simp
  have t: "trim (stripComment ''  style A fill:red %% note'') = ''style A fill:red''"
    by (simp add: trim_def is_ws_def)
  have d: "isDirective ''style A fill:red''"
    by (simp add: isDirective_def startsWith_def)
  show ?thesis
    using directive_line_trimmed [of 1 "''graph TD\<newline>  style A fill:red %% note''" id]
    unfolding s using t d by simp
qed

section \<open>Fence lines and the pairing loop\<close>

lemma fenceOf_index: "fenceOf i l = Some f \<Longrightarrow> index f = i"
  by (auto simp: fenceOf_def Let_def split: if_splits option.splits)

lemma fenceLinesFrom_mem:
  "f \<in> set (fenceLinesFrom k ls) \<Longrightarrow>
     k \<le> index f \<and> index f < k + length ls \<and> fenceOf (index f) (ls ! (index f - k)) = Some f"
proof (induction ls arbitrary: k)
  case Nil
  then show ?case by simp
next
  case (Cons l ls)
  show ?case
  proof (cases "f \<in> set (fenceLinesFrom (Suc k) ls)")
    case True
    from Cons.IH [OF True]
    have a: "Suc k \<le> index f" and b: "index f < Suc k + length ls"
      and c: "fenceOf (index f) (ls ! (index f - Suc k)) = Some f" by auto
    from a have "(l # ls) ! (index f - k) = ls ! (index f - Suc k)"
      by (simp add: nth_Cons split: nat.splits) (metis Suc_diff_Suc Suc_le_lessD nat.inject)
    with a b c show ?thesis by simp
  next
    case False
    with Cons.prems have "fenceOf k l = Some f"
      by (auto split: option.splits)
    then show ?thesis using fenceOf_index by fastforce
  qed
qed

lemma fenceLines_mem:
  "f \<in> set (fenceLinesFrom 0 ls) \<Longrightarrow> index f < length ls \<and> fenceOf (index f) (ls ! index f) = Some f"
  using fenceLinesFrom_mem [of f 0 ls] by simp

lemma fenceLinesFrom_sorted: "sorted_wrt (\<lambda>a b. index a < index b) (fenceLinesFrom k ls)"
proof (induction ls arbitrary: k)
  case Nil
  then show ?case by simp
next
  case (Cons l ls)
  show ?case
  proof (cases "fenceOf k l")
    case None
    then show ?thesis using Cons.IH by simp
  next
    case (Some f)
    then have "index f = k" by (rule fenceOf_index)
    moreover have "\<forall>g\<in>set (fenceLinesFrom (Suc k) ls). Suc k \<le> index g"
      using fenceLinesFrom_mem by blast
    ultimately show ?thesis using Some Cons.IH by auto
  qed
qed

lemma pairFences_blocks:
  "pairFences cur bs fs = (cur', bs') \<Longrightarrow> \<forall>b\<in>set bs. blockOf S b \<Longrightarrow>
   (\<forall>c. cur = Some c \<longrightarrow> c \<in> S \<and> (\<forall>f\<in>set fs. index c < index f)) \<Longrightarrow>
   set fs \<subseteq> S \<Longrightarrow> sorted_wrt (\<lambda>a b. index a < index b) fs \<Longrightarrow>
   (\<forall>b\<in>set bs'. blockOf S b) \<and> (\<forall>c. cur' = Some c \<longrightarrow> c \<in> S)"
proof (induction cur bs fs rule: pairFences.induct)
  case (1 cur blocks)
  then show ?case by simp
next
  case (2 blocks f fs)
  have "pairFences (Some f) blocks fs = (cur', bs')" using "2.prems"(1) by simp
  moreover have "\<forall>c. Some f = Some c \<longrightarrow> c \<in> S \<and> (\<forall>g\<in>set fs. index c < index g)"
    using "2.prems"(4,5) by simp
  moreover have "set fs \<subseteq> S" using "2.prems"(4) by simp
  moreover have "sorted_wrt (\<lambda>a b. index a < index b) fs" using "2.prems"(5) by simp
  ultimately show ?case using "2.IH" "2.prems"(2) by blast
next
  case (3 c blocks f fs)
  have cS: "c \<in> S" and cf: "index c < index f" and cfs: "\<forall>g\<in>set fs. index c < index g"
    using "3.prems"(3) by simp_all
  have fS: "f \<in> S" and sub: "set fs \<subseteq> S" using "3.prems"(4) by simp_all
  have srt: "sorted_wrt (\<lambda>a b. index a < index b) fs" using "3.prems"(5) by simp
  show ?case
  proof (cases "lengthF c \<le> lengthF f \<and> info f = []")
    case True
    let ?b = "\<lparr>start = index c, endIdx = index f, fenceLength = lengthF c\<rparr>"
    have "blockOf S ?b" unfolding blockOf_def using cS fS cf True by force
    then have "\<forall>b\<in>set (blocks @ [?b]). blockOf S b" using "3.prems"(2) by simp
    moreover have "pairFences None (blocks @ [?b]) fs = (cur', bs')"
      using True "3.prems"(1) by simp
    moreover have "\<forall>c. (None :: fence option) = Some c \<longrightarrow> c \<in> S \<and> (\<forall>g\<in>set fs. index c < index g)"
      by simp
    ultimately show ?thesis using "3.IH"(1) [OF True] sub srt by blast
  next
    case False
    then have "pairFences (Some c) blocks fs = (cur', bs')" using "3.prems"(1) by auto
    moreover have "\<forall>c'. Some c = Some c' \<longrightarrow> c' \<in> S \<and> (\<forall>g\<in>set fs. index c' < index g)"
      using cS cfs by simp
    ultimately show ?thesis using "3.IH"(2) [OF False] "3.prems"(2) sub srt by blast
  qed
qed

lemma pairFences_dangling:
  "pairFences cur bs fs = (Some c, bs') \<Longrightarrow> sorted_wrt (\<lambda>a b. index a < index b) fs \<Longrightarrow>
   (\<forall>c0. cur = Some c0 \<longrightarrow> (\<forall>f\<in>set fs. index c0 < index f)) \<Longrightarrow>
   (cur = Some c \<or> c \<in> set fs) \<and>
   (\<forall>f\<in>set fs. index c < index f \<longrightarrow> \<not> (info f = [] \<and> lengthF c \<le> lengthF f))"
proof (induction cur bs fs rule: pairFences.induct)
  case (1 cur blocks)
  then show ?case by simp
next
  case (2 blocks f fs)
  then have "pairFences (Some f) blocks fs = (Some c, bs')" by simp
  moreover have "sorted_wrt (\<lambda>a b. index a < index b) fs" using 2(3) by simp
  moreover have "\<forall>g\<in>set fs. index f < index g" using 2(3) by simp
  ultimately have ih: "(Some f = Some c \<or> c \<in> set fs) \<and>
     (\<forall>g\<in>set fs. index c < index g \<longrightarrow> \<not> (info g = [] \<and> lengthF c \<le> lengthF g))"
    using 2(1) by blast
  then have "index f \<le> index c" using 2(3) by auto
  with ih show ?case by auto
next
  case (3 c0 blocks f fs)
  have srt: "sorted_wrt (\<lambda>a b. index a < index b) fs" using 3(4) by simp
  have lt: "\<forall>g\<in>set fs. index f < index g" using 3(4) by simp
  show ?case
  proof (cases "lengthF c0 \<le> lengthF f \<and> info f = []")
    case True
    then have "pairFences None (blocks @ [\<lparr>start = index c0, endIdx = index f, fenceLength = lengthF c0\<rparr>]) fs
               = (Some c, bs')" using 3(3) by simp
    then have ih: "c \<in> set fs \<and>
       (\<forall>g\<in>set fs. index c < index g \<longrightarrow> \<not> (info g = [] \<and> lengthF c \<le> lengthF g))"
      using 3(1) [OF True] srt by simp
    then have "index f < index c" using lt by blast
    with ih show ?thesis by auto
  next
    case False
    then have "pairFences (Some c0) blocks fs = (Some c, bs')" using 3(3) by auto
    moreover have "\<forall>g\<in>set fs. index c0 < index g" using 3(5) by simp
    ultimately have ih: "(c0 = c \<or> c \<in> set fs) \<and>
       (\<forall>g\<in>set fs. index c < index g \<longrightarrow> \<not> (info g = [] \<and> lengthF c \<le> lengthF g))"
      using 3(2) [OF False] srt by simp
    show ?thesis
    proof (cases "c0 = c")
      case True
      with ih False show ?thesis by auto
    next
      case neq: False
      with ih have "c \<in> set fs" by simp
      then have "index f < index c" using lt by blast
      with ih show ?thesis by auto
    qed
  qed
qed

lemma find_None_dangling:
  assumes "pairFences None [] (fenceLinesFrom 0 ls) = (Some c, bs)"
  shows "find (\<lambda>f. index c < index f \<and> info f = [] \<and> lengthF c \<le> lengthF f) (fenceLinesFrom 0 ls) = None"
    and "c \<in> set (fenceLinesFrom 0 ls)"
proof -
  have r: "(None = Some c \<or> c \<in> set (fenceLinesFrom 0 ls)) \<and>
   (\<forall>f\<in>set (fenceLinesFrom 0 ls). index c < index f \<longrightarrow> \<not> (info f = [] \<and> lengthF c \<le> lengthF f))"
    using pairFences_dangling [OF assms fenceLinesFrom_sorted] by simp
  then show "c \<in> set (fenceLinesFrom 0 ls)" by simp
  from r show "find (\<lambda>f. index c < index f \<and> info f = [] \<and> lengthF c \<le> lengthF f) (fenceLinesFrom 0 ls) = None"
    by (auto simp: find_None_iff)
qed

text \<open>
  Claim C2, amended. When the pairing loop of a pass ends with a dangling opener, no
  later marker with empty info string and a backtick run at least as long as the
  opener's exists (the pairing loop would have taken it as the closer), so the search
  of the unclosed-block step finds nothing. The step then always appends a new closing
  fence line, made of the opener line's leading white space and as many backticks as
  the opener has, at the end of the document, and the pass counts as a change. No
  existing line is lengthened by this step.
\<close>

theorem unclosed_block_appends:
  assumes "pairFences None [] (fenceLinesFrom 0 lines) = (Some cur, blocks)"
  shows "find (\<lambda>f. index cur < index f \<and> info f = [] \<and> lengthF cur \<le> lengthF f)
              (fenceLinesFrom 0 lines) = None
       \<and> repairPass lines
           = (lines @ [takeWhile is_ws (lines ! index cur) @ repeatTick (lengthF cur)], True)"
  using find_None_dangling(1) [OF assms] assms
  by (simp add: repairPass_def handleUnclosed_def Let_def)

theorem unclosed_block_appends_witness:
  "repairPass [''  ````js'', ''x''] = ([''  ````js'', ''x'', ''  ````''], True)"
proof -
  have h: "pairFences None [] (fenceLinesFrom 0 [''  ````js'', ''x''])
           = (Some \<lparr>index = 0, lengthF = 4, info = ''js'', raw = ''  ````js''\<rparr>, [])"
    by code_simp
  have e: "[''  ````js'', ''x'']
             @ [takeWhile is_ws ([''  ````js'', ''x'']
                   ! index \<lparr>index = 0, lengthF = 4, info = ''js'', raw = ''  ````js''\<rparr>)
                @ repeatTick (lengthF \<lparr>index = 0, lengthF = 4, info = ''js'', raw = ''  ````js''\<rparr>)]
           = [''  ````js'', ''x'', ''  ````'']"
    by code_simp
  from unclosed_block_appends [OF h] show ?thesis
    unfolding e by (rule conjunct2)
qed

text \<open>
  Claim C2, as stated: a shorter marker with empty info string behind a dangling
  opener is lengthened to the opener's length and becomes the closer. For a
  four-backtick opener followed by a three-backtick line the pairing loop leaves the
  opener dangling and the three-backtick line is an empty-info marker with a shorter
  run, yet that line stays as it is and a new four-backtick line is appended.
\<close>

theorem unclosed_block_counterexample:
  "pairFences None [] (fenceLinesFrom 0 (split_nl ''````js\<newline>foo\<newline>```''))
     = (Some \<lparr>index = 0, lengthF = 4, info = ''js'', raw = ''````js''\<rparr>, [])
   \<and> fenceOf 2 (split_nl ''````js\<newline>foo\<newline>```'' ! 2)
     = Some \<lparr>index = 2, lengthF = 3, info = [], raw = ''```''\<rparr>
   \<and> repairMarkdown ''````js\<newline>foo\<newline>```'' = ''````js\<newline>foo\<newline>```\<newline>````''
   \<and> split_nl (repairMarkdown ''````js\<newline>foo\<newline>```'') ! 2 = ''```''"
  by code_simp

section \<open>Lines with a backtick run\<close>

lemma tick_not_ws: "is_tick c \<Longrightarrow> \<not> is_ws c"
  by (auto simp: is_tick_def is_ws_def)

lemma repeatTick_Suc: "repeatTick (Suc n) = CHR 0x60 # repeatTick n"
  by (simp add: repeatTick_def)

lemma repeatTick_ticks: "\<forall>x\<in>set (repeatTick n). is_tick x"
  by (simp add: repeatTick_def is_tick_def)

lemma takeWhile_ws_prefix:
  assumes "\<forall>c\<in>set w. is_ws c" and "0 < n"
  shows "takeWhile is_ws (w @ repeatTick n @ r) = w"
proof -
  obtain k where k: "n = Suc k" using assms(2) by (cases n) auto
  have "takeWhile is_ws (repeatTick n @ r) = []"
    unfolding k repeatTick_Suc using tick_not_ws [of "CHR 0x60"] by (simp add: is_tick_def)
  then show ?thesis using assms(1) by (simp add: takeWhile_append2)
qed

lemma dropWhile_ws_prefix:
  assumes "\<forall>c\<in>set w. is_ws c" and "0 < n"
  shows "dropWhile is_ws (w @ repeatTick n @ r) = repeatTick n @ r"
proof -
  obtain k where k: "n = Suc k" using assms(2) by (cases n) auto
  have "dropWhile is_ws (repeatTick n @ r) = repeatTick n @ r"
    unfolding k repeatTick_Suc using tick_not_ws [of "CHR 0x60"] by (simp add: is_tick_def)
  then show ?thesis using assms(1) by (simp add: dropWhile_append2)
qed

lemma takeWhile_ws_all: "\<forall>c\<in>set (takeWhile is_ws l). is_ws c"
  by (auto dest: set_takeWhileD)

lemma restOf_start: "restOf l = [] \<or> \<not> is_tick (hd (restOf l))"
  unfolding restOf_def using hd_dropWhile [of is_tick] by blast

lemma takeWhile_tick_repeat:
  "r = [] \<or> \<not> is_tick (hd r) \<Longrightarrow> takeWhile is_tick (repeatTick n @ r) = repeatTick n"
proof -
  assume h: "r = [] \<or> \<not> is_tick (hd r)"
  have "takeWhile is_tick r = []" using h by (cases r) auto
  then show ?thesis using repeatTick_ticks [of n] by (simp add: takeWhile_append2)
qed

lemma dropWhile_tick_repeat:
  "r = [] \<or> \<not> is_tick (hd r) \<Longrightarrow> dropWhile is_tick (repeatTick n @ r) = r"
proof -
  assume h: "r = [] \<or> \<not> is_tick (hd r)"
  have "dropWhile is_tick r = r" using h by (cases r) auto
  then show ?thesis using repeatTick_ticks [of n] by (simp add: dropWhile_append2)
qed

lemma indent_newOpener: "0 < n \<Longrightarrow> takeWhile is_ws (newOpener l n) = takeWhile is_ws l"
  unfolding newOpener_def using takeWhile_ws_all by (rule takeWhile_ws_prefix)

lemma indent_newCloser:
  assumes "0 < n"
  shows "takeWhile is_ws (newCloser l n) = takeWhile is_ws l"
proof -
  have "takeWhile is_ws (takeWhile is_ws l @ repeatTick n @ []) = takeWhile is_ws l"
    using takeWhile_ws_all assms by (rule takeWhile_ws_prefix)
  then show ?thesis by (simp add: newCloser_def)
qed

lemma restOf_newOpener:
  assumes "0 < n"
  shows "restOf (newOpener l n) = restOf l"
proof -
  have "dropWhile is_ws (newOpener l n) = repeatTick n @ restOf l"
    unfolding newOpener_def using takeWhile_ws_all assms by (rule dropWhile_ws_prefix)
  then have "restOf (newOpener l n) = dropWhile is_tick (repeatTick n @ restOf l)"
    by (simp add: restOf_def)
  then show ?thesis using dropWhile_tick_repeat [OF restOf_start] by simp
qed

lemma restOf_newCloser:
  assumes "0 < n"
  shows "restOf (newCloser l n) = []"
proof -
  have "dropWhile is_ws (takeWhile is_ws l @ repeatTick n @ []) = repeatTick n @ []"
    using takeWhile_ws_all assms by (rule dropWhile_ws_prefix)
  then have "restOf (newCloser l n) = dropWhile is_tick (repeatTick n @ [])"
    by (simp add: restOf_def newCloser_def)
  then show ?thesis using dropWhile_tick_repeat [of "[]" n] by simp
qed

lemma tickCount_newOpener:
  assumes "0 < n"
  shows "tickCount (newOpener l n) = n"
proof -
  have "dropWhile is_ws (newOpener l n) = repeatTick n @ restOf l"
    unfolding newOpener_def using takeWhile_ws_all assms by (rule dropWhile_ws_prefix)
  then have "tickCount (newOpener l n) = length (repeatTick n)"
    using takeWhile_tick_repeat [OF restOf_start] by (simp add: tickCount_def)
  then show ?thesis by (simp add: repeatTick_def)
qed

lemma tickCount_newCloser:
  assumes "0 < n"
  shows "tickCount (newCloser l n) = n"
proof -
  have "dropWhile is_ws (takeWhile is_ws l @ repeatTick n @ []) = repeatTick n @ []"
    using takeWhile_ws_all assms by (rule dropWhile_ws_prefix)
  then have "tickCount (newCloser l n) = length (takeWhile is_tick (repeatTick n @ []))"
    by (simp add: tickCount_def newCloser_def)
  then show ?thesis using takeWhile_tick_repeat [of "[]" n] by (simp add: repeatTick_def)
qed

lemma lineInfo_newOpener: "0 < n \<Longrightarrow> lineInfo (newOpener l n) = lineInfo l"
  by (simp add: lineInfo_def restOf_newOpener)

lemma lineInfo_newCloser: "0 < n \<Longrightarrow> lineInfo (newCloser l n) = []"
  by (simp add: lineInfo_def restOf_newCloser trim_def)

lemma newOpener_newOpener: "0 < k \<Longrightarrow> newOpener (newOpener l k) n = newOpener l n"
  using newOpener_def [of "newOpener l k" n] newOpener_def [of l n]
  by (simp add: indent_newOpener restOf_newOpener)

lemma newCloser_newOpener: "0 < k \<Longrightarrow> newCloser (newOpener l k) n = newCloser l n"
  using newCloser_def [of "newOpener l k" n] newCloser_def [of l n]
  by (simp add: indent_newOpener)

lemma newOpener_newCloser: "0 < k \<Longrightarrow> newOpener (newCloser l k) n = newCloser l n"
  using newOpener_def [of "newCloser l k" n] newCloser_def [of l n]
  by (simp add: indent_newCloser restOf_newCloser)

lemma newCloser_newCloser: "0 < k \<Longrightarrow> newCloser (newCloser l k) n = newCloser l n"
  using newCloser_def [of "newCloser l k" n] newCloser_def [of l n]
  by (simp add: indent_newCloser)

lemma trim_append_ws:
  assumes "\<forall>c\<in>set b. is_ws c"
  shows "trim (x @ b) = trim x"
proof (cases "\<forall>c\<in>set x. is_ws c")
  case True
  then have 1: "dropWhile is_ws x = []" by simp
  have 2: "dropWhile is_ws (x @ b) = []" using True assms by simp
  show ?thesis unfolding trim_def 1 2 ..
next
  case False
  then have "dropWhile is_ws (x @ b) = dropWhile is_ws x @ b"
    by (auto simp: dropWhile_append1)
  moreover have "dropWhile is_ws (rev b @ rev (dropWhile is_ws x)) = dropWhile is_ws (rev (dropWhile is_ws x))"
    by (rule dropWhile_append2) (use assms in auto)
  ultimately show ?thesis by (simp add: trim_def)
qed

lemma trim_tail: "\<exists>b. (\<forall>c\<in>set b. is_ws c) \<and> dropWhile is_ws l = trim l @ b"
proof -
  let ?u = "dropWhile is_ws l"
  let ?b = "rev (takeWhile is_ws (rev ?u))"
  have "trim l @ ?b = rev (takeWhile is_ws (rev ?u) @ dropWhile is_ws (rev ?u))"
    by (simp only: trim_def rev_append)
  also have "\<dots> = ?u" by (simp only: takeWhile_dropWhile_id rev_rev_ident)
  finally have "?u = trim l @ ?b" by simp
  moreover have "\<forall>c\<in>set ?b. is_ws c" by (auto dest: set_takeWhileD)
  ultimately show ?thesis by blast
qed

lemma takeWhile_tick_trim: "takeWhile is_tick (trim l) = takeWhile is_tick (dropWhile is_ws l)"
proof -
  obtain b where b: "\<forall>c\<in>set b. is_ws c" and u: "dropWhile is_ws l = trim l @ b"
    using trim_tail by blast
  have tb: "takeWhile is_tick b = []" using b tick_not_ws by (cases b) auto
  have "takeWhile is_tick (trim l @ b) = takeWhile is_tick (trim l)"
  proof (cases "\<forall>x\<in>set (trim l). is_tick x")
    case True
    have "takeWhile is_tick (trim l @ b) = trim l @ takeWhile is_tick b"
      using True by (simp add: takeWhile_append2)
    also have "\<dots> = trim l" by (simp only: tb append_Nil2)
    finally have a: "takeWhile is_tick (trim l @ b) = trim l" .
    have t: "takeWhile is_tick (trim l) = trim l"
      using True by (simp add: takeWhile_eq_all_conv)
    show ?thesis by (simp only: a t)
  next
    case False
    then show ?thesis by (auto simp: takeWhile_append1)
  qed
  with u show ?thesis by simp
qed

lemma lineInfo_trim: "trim (dropWhile is_tick (trim l)) = lineInfo l"
proof -
  obtain b where b: "\<forall>c\<in>set b. is_ws c" and u: "dropWhile is_ws l = trim l @ b"
    using trim_tail by blast
  have db: "dropWhile is_tick b = b" using b tick_not_ws by (cases b) auto
  show ?thesis
  proof (cases "\<forall>x\<in>set (trim l). is_tick x")
    case True
    have l1: "dropWhile is_tick (trim l) = []" using True by simp
    have l2: "dropWhile is_tick (trim l @ b) = b" using True db by (simp add: dropWhile_append2)
    have wb: "dropWhile is_ws b = []" using b by simp
    have tb: "trim b = []" unfolding trim_def wb by simp
    have "lineInfo l = trim b" unfolding lineInfo_def restOf_def u l2 ..
    moreover have "trim (dropWhile is_tick (trim l)) = []" unfolding l1 by (simp add: trim_def)
    ultimately show ?thesis using tb by simp
  next
    case False
    then have "dropWhile is_tick (trim l @ b) = dropWhile is_tick (trim l) @ b"
      by (auto simp: dropWhile_append1)
    then have "lineInfo l = trim (dropWhile is_tick (trim l) @ b)"
      by (simp add: lineInfo_def restOf_def u)
    then show ?thesis using trim_append_ws [OF b] by simp
  qed
qed

lemma fenceOf_tickCount:
  assumes "fenceOf i l = Some g"
  shows "lengthF g = tickCount l" and "0 < lengthF g"
proof -
  from assms have 1: "lengthF g = length (takeWhile is_tick (trim l))"
    and 2: "takeWhile is_tick (trim l) \<noteq> []"
    by (auto simp: fenceOf_def matchTicksRest_def Let_def split: if_splits option.splits)
  from 1 show "lengthF g = tickCount l" by (simp add: tickCount_def takeWhile_tick_trim)
  from 1 2 show "0 < lengthF g" by simp
qed

lemma fenceOf_lineInfo: "fenceOf i l = Some g \<Longrightarrow> info g = lineInfo l"
proof -
  assume "fenceOf i l = Some g"
  then have "info g = trim (dropWhile is_tick (trim l))"
    by (auto simp: fenceOf_def matchTicksRest_def Let_def split: if_splits option.splits)
  then show ?thesis by (simp add: lineInfo_trim)
qed

lemma fenceOf_ge3: "fenceOf i l = Some g \<Longrightarrow> 3 \<le> lengthF g"
proof -
  assume fo: "fenceOf i l = Some g"
  then have "startsWith (trim l) ''```''"
    by (auto simp: fenceOf_def Let_def split: if_splits)
  then have "take (length ''```'') (trim l) = ''```''" by (simp only: startsWith_def)
  then obtain r where r: "trim l = ''```'' @ r" by (metis append_take_drop_id)
  from fo have "lengthF g = length (takeWhile is_tick (trim l))"
    by (auto simp: fenceOf_def matchTicksRest_def Let_def split: if_splits option.splits)
  then show ?thesis unfolding r by (simp add: is_tick_def)
qed

lemma trim_newCloser:
  assumes "0 < n"
  shows "trim (newCloser l n) = repeatTick n"
proof -
  obtain k where k: "n = Suc k" using assms by (cases n) auto
  have "dropWhile is_ws (takeWhile is_ws l @ repeatTick n @ []) = repeatTick n @ []"
    using takeWhile_ws_all assms by (rule dropWhile_ws_prefix)
  then have d: "dropWhile is_ws (newCloser l n) = repeatTick n" by (simp add: newCloser_def)
  have r: "rev (repeatTick n) = repeatTick n" by (simp add: repeatTick_def)
  have "dropWhile is_ws (repeatTick n) = repeatTick n"
    unfolding k repeatTick_Suc using tick_not_ws [of "CHR 0x60"] by (simp add: is_tick_def)
  then show ?thesis by (simp add: trim_def d r)
qed

lemma fenceOf_newCloser:
  assumes "3 \<le> n"
  shows "fenceOf i (newCloser l n)
         = Some \<lparr>index = i, lengthF = n, info = [], raw = newCloser l n\<rparr>"
proof -
  have t: "trim (newCloser l n) = repeatTick n" using assms by (simp add: trim_newCloser)
  have s: "startsWith (repeatTick n) ''```''"
    using assms by (simp add: startsWith_def repeatTick_def min_def)
  have tw: "takeWhile is_tick (repeatTick n) = repeatTick n"
    using takeWhile_tick_repeat [of "[]" n] by simp
  have dw: "dropWhile is_tick (repeatTick n) = []"
    using dropWhile_tick_repeat [of "[]" n] by simp
  have ne: "repeatTick n \<noteq> []" using assms by (auto simp: repeatTick_def)
  have m: "matchTicksRest (repeatTick n) = Some (repeatTick n, [])"
    using ne by (simp add: matchTicksRest_def tw dw)
  have e: "trim [] = []" by (simp add: trim_def)
  have len: "length (repeatTick n) = n" by (simp add: repeatTick_def)
  show ?thesis by (simp add: fenceOf_def t s m e len)
qed

section \<open>One pass\<close>

lemma repairPass_dangling:
  assumes "pairFences None [] (fenceLinesFrom 0 ls) = (Some c, bs)"
  shows "repairPass ls = (ls @ [newCloser (ls ! index c) (lengthF c)], True)"
  using find_None_dangling(1) [OF assms] assms
  by (simp add: repairPass_def handleUnclosed_def Let_def newCloser_def)

lemma widen_Some:
  assumes w: "widen ls opn c n = Some ls'" and o: "opn < length ls" and c: "c < length ls"
    and n: "0 < n" and oc: "opn \<noteq> c" and tc: "0 < tickCount (ls ! c)"
  shows "ls' = (ls[opn := newOpener (ls ! opn) n])[c := newCloser (ls ! c) n]"
proof -
  let ?l = "ls ! opn"
  let ?lines1 = "ls[opn := newOpener ?l n]"
  from w obtain t r where m: "matchIndentTicksRest ?l = Some (takeWhile is_ws ?l, t, r)"
    by (auto simp: widen_def Let_def matchIndentTicksRest_def split: option.splits)
  then have r: "r = restOf ?l"
    by (auto simp: matchIndentTicksRest_def matchTicksRest_def restOf_def Let_def
             split: option.splits if_splits)
  have l1: "ls[opn := takeWhile is_ws ?l @ repeatTick n @ r] = ?lines1"
    by (simp add: newOpener_def r)
  have lc: "?lines1 ! c = ls ! c" using oc by simp
  have "takeWhile is_tick (dropWhile is_ws (ls ! c)) \<noteq> []"
    using tc by (auto simp: tickCount_def)
  then have mc: "matchIndentTicks (ls ! c)
      = Some (takeWhile is_ws (ls ! c), takeWhile is_tick (dropWhile is_ws (ls ! c)))"
    by (simp add: matchIndentTicks_def Let_def)
  from w m have "ls' = ?lines1[c := (case matchIndentTicks (?lines1 ! c) of
        Some (ws, t) \<Rightarrow> ws | None \<Rightarrow> takeWhile is_ws ?l) @ repeatTick n]"
    by (simp add: widen_def Let_def l1)
  then show ?thesis unfolding lc mc by (simp add: newCloser_def)
qed

lemma reactive_Some:
  "reactive ls F blocks bs = Some ls' \<Longrightarrow>
     \<exists>b\<in>set bs. \<exists>nf\<in>set F. endIdx b < index nf \<and> info nf = [] \<and>
        widen ls (start b) (index nf) (fenceLength b + 1) = Some ls'"
proof (induction bs)
  case Nil
  then show ?case by simp
next
  case (Cons b bs)
  show ?case
  proof (cases "find (\<lambda>f. endIdx b < index f) F")
    case None
    then have "reactive ls F blocks bs = Some ls'" using Cons.prems by simp
    then show ?thesis using Cons.IH by auto
  next
    case (Some nf)
    then have nfF: "nf \<in> set F" and lt: "endIdx b < index nf"
      by (auto simp: find_Some_iff)
    let ?cond = "(\<not> list_ex (\<lambda>b'. start b' = index nf) blocks
        \<or> trim (concat (slice (endIdx b + 1) (index nf) ls)) = []) \<and> info nf = []"
    show ?thesis
    proof (cases "?cond \<and> widen ls (start b) (index nf) (fenceLength b + 1) \<noteq> None")
      case True
      then obtain l1 where l1: "widen ls (start b) (index nf) (fenceLength b + 1) = Some l1"
        by auto
      with True Some Cons.prems have "ls' = l1" by (simp add: Let_def)
      with True l1 nfF lt show ?thesis by auto
    next
      case False
      then have "reactive ls F blocks bs = Some ls'"
        using Cons.prems Some by (auto simp: Let_def split: if_splits option.splits)
      then show ?thesis using Cons.IH by auto
    qed
  qed
qed

lemma proactive_Some:
  "proactive ls bs = Some ls' \<Longrightarrow>
     \<exists>b\<in>set bs. \<exists>m. fenceLength b \<le> m \<and> widen ls (start b) (endIdx b) (m + 1) = Some ls'"
proof (induction bs)
  case Nil
  then show ?case by simp
next
  case (Cons b bs)
  let ?m = "maxInnerBackticks ls b"
  show ?case
  proof (cases "fenceLength b \<le> ?m \<and> widen ls (start b) (endIdx b) (?m + 1) \<noteq> None")
    case True
    then obtain l1 where l1: "widen ls (start b) (endIdx b) (?m + 1) = Some l1" by auto
    with True Cons.prems have "ls' = l1" by (simp add: Let_def)
    with True l1 show ?thesis by auto
  next
    case False
    then have "proactive ls bs = Some ls'"
      using Cons.prems by (auto simp: Let_def split: if_splits option.splits)
    then show ?thesis using Cons.IH by auto
  qed
qed

lemma blockOfD:
  assumes "blockOf S b"
  obtains c f where "c \<in> S" and "f \<in> S" and "start b = index c" and "endIdx b = index f"
    and "fenceLength b = lengthF c" and "index c < index f" and "info f = []"
  using assms unfolding blockOf_def by blast

lemma pairFences_start:
  assumes "pairFences None [] (fenceLinesFrom 0 ls) = (cur, bs)"
  shows "\<forall>b\<in>set bs. blockOf (set (fenceLinesFrom 0 ls)) b"
  using pairFences_blocks [OF assms, of "set (fenceLinesFrom 0 ls)"] fenceLinesFrom_sorted
  by simp

lemma widen_passStep:
  assumes w: "widen ls (index c) (index f) n = Some ls'"
    and c: "c \<in> set (fenceLinesFrom 0 ls)" and f: "f \<in> set (fenceLinesFrom 0 ls)"
    and n: "lengthF c < n" and cf: "index c < index f" and i: "info f = []"
  shows "passStep ls ls'"
proof -
  have ic: "index c < length ls" and jf: "index f < length ls"
    and ff: "fenceOf (index f) (ls ! index f) = Some f"
    using c f fenceLines_mem by blast+
  have "0 < tickCount (ls ! index f)" using fenceOf_tickCount [OF ff] by simp
  moreover have "0 < n" using n by simp
  moreover have "index c \<noteq> index f" using cf by simp
  ultimately have "ls' = (ls[index c := newOpener (ls ! index c) n])[index f := newCloser (ls ! index f) n]"
    using widen_Some [OF w ic jf] by blast
  then show ?thesis unfolding passStep_def using c f n cf i by blast
qed

lemma repairPass_cases:
  assumes "repairPass ls = (ls', ch)"
  shows "if ch then passStep ls ls'
         else ls' = ls \<and> fst (pairFences None [] (fenceLinesFrom 0 ls)) = None"
proof -
  let ?F = "fenceLinesFrom 0 ls"
  obtain cur bs where pf: "pairFences None [] ?F = (cur, bs)" by (cases "pairFences None [] ?F")
  have ok: "\<forall>b\<in>set bs. blockOf (set ?F) b" using pairFences_start [OF pf] .
  show ?thesis
  proof (cases cur)
    case (Some c)
    with pf have "repairPass ls = (ls @ [newCloser (ls ! index c) (lengthF c)], True)"
      using repairPass_dangling by blast
    moreover have "c \<in> set ?F" using pf Some find_None_dangling(2) by blast
    ultimately show ?thesis using assms unfolding passStep_def by auto
  next
    case None
    show ?thesis
    proof (cases "reactive ls ?F bs bs")
      case (Some l1)
      then have r: "ls' = l1 \<and> ch" using assms pf None by (simp add: repairPass_def Let_def)
      from reactive_Some [OF Some] obtain b nf where b: "b \<in> set bs" and nf: "nf \<in> set ?F"
        and lt: "endIdx b < index nf" and inf: "info nf = []"
        and w: "widen ls (start b) (index nf) (fenceLength b + 1) = Some l1" by blast
      from ok b have "blockOf (set ?F) b" by simp
      then obtain c f where c: "c \<in> set ?F" and f: "f \<in> set ?F" and s: "start b = index c"
        and e: "endIdx b = index f" and fl: "fenceLength b = lengthF c"
        and cf: "index c < index f" and inf0: "info f = []" by (rule blockOfD)
      have "index c < index nf" using cf e lt by simp
      then have "passStep ls l1"
        using widen_passStep [of ls c nf "fenceLength b + 1" l1] w c nf s fl inf by simp
      then show ?thesis using r by simp
    next
      case rnone: None
      show ?thesis
      proof (cases "proactive ls bs")
        case (Some l1)
        then have r: "ls' = l1 \<and> ch" using assms pf None rnone by (simp add: repairPass_def Let_def)
        from proactive_Some [OF Some] obtain b m where b: "b \<in> set bs" and m: "fenceLength b \<le> m"
          and w: "widen ls (start b) (endIdx b) (m + 1) = Some l1" by blast
        from ok b have "blockOf (set ?F) b" by simp
        then obtain c f where c: "c \<in> set ?F" and f: "f \<in> set ?F" and s: "start b = index c"
          and e: "endIdx b = index f" and fl: "fenceLength b = lengthF c"
          and cf: "index c < index f" and inf: "info f = []" by (rule blockOfD)
        have "passStep ls l1"
          using widen_passStep [of ls c f "m + 1" l1] w c f s e fl m cf inf by simp
        then show ?thesis using r by simp
      next
        case pnone: None
        then show ?thesis using assms pf None rnone by (simp add: repairPass_def Let_def)
      qed
    qed
  qed
qed

section \<open>What a changing pass preserves\<close>

lemma passStep_length: "passStep ls ls' \<Longrightarrow> length ls \<le> length ls'"
  by (auto simp: passStep_def)

lemma passStep_frame:
  assumes "passStep ls ls'" and "i < length ls" and "fenceOf i (ls ! i) = None"
  shows "ls' ! i = ls ! i"
  using assms(1) unfolding passStep_def
proof (elim disjE bexE exE conjE)
  fix cur assume "ls' = ls @ [newCloser (ls ! index cur) (lengthF cur)]"
  then show ?thesis using assms(2) by (simp add: nth_append)
next
  fix c f n
  assume c: "c \<in> set (fenceLinesFrom 0 ls)" and f: "f \<in> set (fenceLinesFrom 0 ls)"
    and e: "ls' = (ls[index c := newOpener (ls ! index c) n])[index f := newCloser (ls ! index f) n]"
  have "fenceOf (index c) (ls ! index c) = Some c" using c fenceLines_mem by blast
  then have "i \<noteq> index c" using assms(3) by auto
  moreover have "fenceOf (index f) (ls ! index f) = Some f" using f fenceLines_mem by blast
  then have "i \<noteq> index f" using assms(3) by auto
  ultimately show ?thesis using e by simp
qed

lemma set_newOpener: "set (newOpener l n) \<subseteq> insert (CHR 0x60) (set l)"
proof -
  have "set (takeWhile is_ws l) \<subseteq> set l" by (auto dest: set_takeWhileD)
  moreover have "set (restOf l) \<subseteq> set l"
    unfolding restOf_def by (auto dest: set_dropWhileD)
  moreover have "set (repeatTick n) \<subseteq> {CHR 0x60}" by (auto simp: repeatTick_def)
  ultimately show ?thesis unfolding newOpener_def by auto
qed

lemma set_newCloser: "set (newCloser l n) \<subseteq> insert (CHR 0x60) (set l)"
proof -
  have "set (takeWhile is_ws l) \<subseteq> set l" by (auto dest: set_takeWhileD)
  moreover have "set (repeatTick n) \<subseteq> {CHR 0x60}" by (auto simp: repeatTick_def)
  ultimately show ?thesis unfolding newCloser_def by auto
qed

lemma noNewline_update:
  "noNewline ls \<Longrightarrow> CHR 0x0A \<notin> set x \<Longrightarrow> noNewline (ls[i := x])"
  unfolding noNewline_def using set_update_subset_insert [of ls i x] by blast

lemma noNewline_nth: "noNewline ls \<Longrightarrow> i < length ls \<Longrightarrow> CHR 0x0A \<notin> set (ls ! i)"
  by (simp add: noNewline_def)

lemma passStep_noNewline:
  assumes "passStep ls ls'" and "noNewline ls"
  shows "noNewline ls'"
  using assms(1) unfolding passStep_def
proof (elim disjE bexE exE conjE)
  fix cur assume cur: "cur \<in> set (fenceLinesFrom 0 ls)"
    and e: "ls' = ls @ [newCloser (ls ! index cur) (lengthF cur)]"
  have "index cur < length ls" using cur fenceLines_mem by simp
  then have "CHR 0x0A \<notin> set (ls ! index cur)" using assms(2) by (rule noNewline_nth [rotated])
  then have "CHR 0x0A \<notin> set (newCloser (ls ! index cur) (lengthF cur))"
    using set_newCloser [of "ls ! index cur" "lengthF cur"] by auto
  then show ?thesis using e assms(2) by (simp add: noNewline_def)
next
  fix c f n
  assume c: "c \<in> set (fenceLinesFrom 0 ls)" and f: "f \<in> set (fenceLinesFrom 0 ls)"
    and e: "ls' = (ls[index c := newOpener (ls ! index c) n])[index f := newCloser (ls ! index f) n]"
  have "index c < length ls" using c fenceLines_mem by simp
  then have "CHR 0x0A \<notin> set (ls ! index c)" using assms(2) by (rule noNewline_nth [rotated])
  then have 1: "CHR 0x0A \<notin> set (newOpener (ls ! index c) n)"
    using set_newOpener [of "ls ! index c" n] by auto
  have "index f < length ls" using f fenceLines_mem by simp
  then have "CHR 0x0A \<notin> set (ls ! index f)" using assms(2) by (rule noNewline_nth [rotated])
  then have 2: "CHR 0x0A \<notin> set (newCloser (ls ! index f) n)"
    using set_newCloser [of "ls ! index f" n] by auto
  show ?thesis unfolding e using assms(2) 1 2 by (intro noNewline_update)
qed

lemma lineForm_props:
  assumes "lineForm l0 l"
  shows "takeWhile is_ws l = takeWhile is_ws l0" and "lineInfo l = lineInfo l0"
    and "restOf l = restOf l0 \<or> (restOf l = [] \<and> lineInfo l0 = [])"
  using assms unfolding lineForm_def
  by (auto simp: indent_newOpener indent_newCloser lineInfo_newOpener lineInfo_newCloser
      restOf_newOpener restOf_newCloser)

lemma lineForm_opener:
  assumes lf: "lineForm l0 l" and n: "0 < n"
  shows "lineForm l0 (newOpener l n)"
proof -
  from lf consider "l = l0" | k where "0 < k" "l = newOpener l0 k"
    | k where "lineInfo l0 = []" "0 < k" "l = newCloser l0 k"
    unfolding lineForm_def by blast
  then show ?thesis
  proof cases
    case 1
    then show ?thesis unfolding lineForm_def using n by blast
  next
    case 2
    then have "newOpener l n = newOpener l0 n" by (simp add: newOpener_newOpener)
    then show ?thesis unfolding lineForm_def using n by blast
  next
    case 3
    then have "newOpener l n = newCloser l0 n" by (simp add: newOpener_newCloser)
    then show ?thesis unfolding lineForm_def using n 3(1) by blast
  qed
qed

lemma lineForm_closer:
  assumes lf: "lineForm l0 l" and n: "0 < n" and i: "lineInfo l = []"
  shows "lineForm l0 (newCloser l n)"
proof -
  have i0: "lineInfo l0 = []" using lineForm_props(2) [OF lf] i by simp
  from lf consider "l = l0" | k where "0 < k" "l = newOpener l0 k"
    | k where "0 < k" "l = newCloser l0 k"
    unfolding lineForm_def by blast
  then have "newCloser l n = newCloser l0 n"
  proof cases
    case 1
    then show ?thesis by simp
  next
    case 2
    then show ?thesis by (simp add: newCloser_newOpener)
  next
    case 3
    then show ?thesis by (simp add: newCloser_newCloser)
  qed
  then show ?thesis unfolding lineForm_def using n i0 by blast
qed

lemma passStep_lineForm:
  assumes "passStep ls ls'" and "i < length ls" and lf: "lineForm l0 (ls ! i)"
  shows "lineForm l0 (ls' ! i)"
  using assms(1) unfolding passStep_def
proof (elim disjE bexE exE conjE)
  fix cur assume "ls' = ls @ [newCloser (ls ! index cur) (lengthF cur)]"
  then show ?thesis using assms(2) lf by (simp add: nth_append)
next
  fix c f n
  assume f: "f \<in> set (fenceLinesFrom 0 ls)" and n: "lengthF c < n" and inf: "info f = []"
    and e: "ls' = (ls[index c := newOpener (ls ! index c) n])[index f := newCloser (ls ! index f) n]"
  have pos: "0 < n" using n by simp
  show ?thesis
  proof (cases "i = index f")
    case True
    have "fenceOf (index f) (ls ! index f) = Some f" using f fenceLines_mem by blast
    then have "lineInfo (ls ! i) = []" using fenceOf_lineInfo inf True by fastforce
    then have "lineForm l0 (newCloser (ls ! i) n)" using lf pos by (intro lineForm_closer)
    moreover have "ls' ! i = newCloser (ls ! i) n" using e True assms(2) by simp
    ultimately show ?thesis by simp
  next
    case nf: False
    show ?thesis
    proof (cases "i = index c")
      case True
      then have "ls' ! i = newOpener (ls ! i) n" using e nf assms(2) by simp
      then show ?thesis using lineForm_opener [OF lf pos] by simp
    next
      case False
      then show ?thesis using e nf lf by simp
    qed
  qed
qed

lemma passStep_appended:
  assumes "passStep ls ls'"
    and "\<forall>i. k0 \<le> i \<and> i < length ls \<longrightarrow> (\<exists>l k. 0 < k \<and> ls ! i = newCloser l k)"
    and "k0 \<le> i" and "i < length ls'"
  shows "\<exists>l k. 0 < k \<and> ls' ! i = newCloser l k"
  using assms(1) unfolding passStep_def
proof (elim disjE bexE exE conjE)
  fix cur assume cur: "cur \<in> set (fenceLinesFrom 0 ls)"
    and e: "ls' = ls @ [newCloser (ls ! index cur) (lengthF cur)]"
  have "fenceOf (index cur) (ls ! index cur) = Some cur" using cur fenceLines_mem by blast
  then have pos: "0 < lengthF cur" by (rule fenceOf_tickCount(2))
  show ?thesis
  proof (cases "i < length ls")
    case True
    then have "ls' ! i = ls ! i" using e by (simp add: nth_append)
    then show ?thesis using assms(2,3) True by simp
  next
    case False
    then have "ls' ! i = newCloser (ls ! index cur) (lengthF cur)"
      using e assms(4) by (simp add: nth_append)
    then show ?thesis using pos by blast
  qed
next
  fix c f n
  assume n: "lengthF c < n"
    and e: "ls' = (ls[index c := newOpener (ls ! index c) n])[index f := newCloser (ls ! index f) n]"
  have pos: "0 < n" using n by simp
  have i: "i < length ls" using e assms(4) by simp
  then obtain l k where k: "0 < k" and l: "ls ! i = newCloser l k" using assms(2,3) by blast
  show ?thesis
  proof (cases "i = index f")
    case True
    then have "ls' ! i = newCloser (ls ! i) n" using e i by simp
    then have "ls' ! i = newCloser l n" using l k by (simp add: newCloser_newCloser)
    then show ?thesis using pos by blast
  next
    case nf: False
    show ?thesis
    proof (cases "i = index c")
      case True
      then have "ls' ! i = newOpener (ls ! i) n" using e nf i by simp
      then have "ls' ! i = newCloser l n" using l k by (simp add: newOpener_newCloser)
      then show ?thesis using pos by blast
    next
      case False
      then have "ls' ! i = ls ! i" using e nf by simp
      then show ?thesis using l k by auto
    qed
  qed
qed

lemma passStep_bound:
  assumes "passStep ls ls'" and i: "i < length ls" and mf: "minFenceBelow i m ls"
  shows "minFenceBelow i m ls' \<and>
         (ls' ! i = ls ! i \<or> tickCount (ls ! i) < tickCount (ls' ! i)
          \<or> (lineInfo (ls ! i) = [] \<and> m < tickCount (ls' ! i)))"
  using assms(1) unfolding passStep_def
proof (elim disjE bexE exE conjE)
  fix cur assume e: "ls' = ls @ [newCloser (ls ! index cur) (lengthF cur)]"
  have same: "\<forall>j<length ls. ls' ! j = ls ! j" using e by (simp add: nth_append)
  have "minFenceBelow i m ls'"
    unfolding minFenceBelow_def
  proof (intro allI impI)
    fix j g assume j: "j < i" and "j < length ls'" and g: "fenceOf j (ls' ! j) = Some g"
    have "j < length ls" using j i by simp
    then show "m \<le> lengthF g" using same g j mf unfolding minFenceBelow_def by auto
  qed
  then show ?thesis using same i by simp
next
  fix c f n
  assume c: "c \<in> set (fenceLinesFrom 0 ls)" and f: "f \<in> set (fenceLinesFrom 0 ls)"
    and n: "lengthF c < n" and cf: "index c < index f" and inf: "info f = []"
    and e: "ls' = (ls[index c := newOpener (ls ! index c) n])[index f := newCloser (ls ! index f) n]"
  have foc: "index c < length ls" "fenceOf (index c) (ls ! index c) = Some c"
    using c fenceLines_mem by blast+
  have fof: "index f < length ls" "fenceOf (index f) (ls ! index f) = Some f"
    using f fenceLines_mem by blast+
  have pos: "0 < n" using n by simp
  have len: "length ls' = length ls" using e by simp
  have low: "\<And>j. j \<le> i \<Longrightarrow> index c < j \<Longrightarrow> m < n"
  proof -
    fix j assume "j \<le> i" and "index c < j"
    then have "index c < i" by simp
    then have "m \<le> lengthF c" using mf foc unfolding minFenceBelow_def by blast
    then show "m < n" using n by simp
  qed
  have opn: "\<And>j. j < length ls \<Longrightarrow> j = index c \<Longrightarrow> j \<noteq> index f \<Longrightarrow>
      tickCount (ls' ! j) = n \<and> tickCount (ls ! j) < n"
  proof -
    fix j assume j: "j < length ls" "j = index c" "j \<noteq> index f"
    then have "ls' ! j = newOpener (ls ! j) n" using e by simp
    then have "tickCount (ls' ! j) = n" using tickCount_newOpener [OF pos] by simp
    moreover have "tickCount (ls ! j) = lengthF c" using fenceOf_tickCount(1) [OF foc(2)] j by simp
    ultimately show "tickCount (ls' ! j) = n \<and> tickCount (ls ! j) < n" using n by simp
  qed
  have cls: "\<And>j. j < length ls \<Longrightarrow> j = index f \<Longrightarrow>
      tickCount (ls' ! j) = n \<and> lineInfo (ls ! j) = []"
  proof -
    fix j assume j: "j < length ls" "j = index f"
    then have "ls' ! j = newCloser (ls ! j) n" using e by simp
    then have "tickCount (ls' ! j) = n" using tickCount_newCloser [OF pos] by simp
    moreover have "lineInfo (ls ! j) = []" using fenceOf_lineInfo [OF fof(2)] inf j by simp
    ultimately show "tickCount (ls' ! j) = n \<and> lineInfo (ls ! j) = []" by simp
  qed
  have oth: "\<And>j. j \<noteq> index c \<Longrightarrow> j \<noteq> index f \<Longrightarrow> ls' ! j = ls ! j" using e by simp
  have "minFenceBelow i m ls'"
    unfolding minFenceBelow_def
  proof (intro allI impI)
    fix j g assume j: "j < i" and jl: "j < length ls'" and g: "fenceOf j (ls' ! j) = Some g"
    have tc: "lengthF g = tickCount (ls' ! j)" using g by (rule fenceOf_tickCount(1))
    have jl': "j < length ls" using jl len by simp
    show "m \<le> lengthF g"
    proof (cases "j = index f")
      case True
      then have "m < n" using low [of j] j cf by simp
      then show ?thesis using tc cls [OF jl' True] by simp
    next
      case nf: False
      show ?thesis
      proof (cases "j = index c")
        case True
        then have "m \<le> lengthF c" using mf foc j unfolding minFenceBelow_def by blast
        then show ?thesis using tc opn [OF jl' True nf] n by simp
      next
        case False
        then have "ls' ! j = ls ! j" using oth nf by simp
        then show ?thesis using g j jl' mf unfolding minFenceBelow_def by auto
      qed
    qed
  qed
  moreover have "ls' ! i = ls ! i \<or> tickCount (ls ! i) < tickCount (ls' ! i)
          \<or> (lineInfo (ls ! i) = [] \<and> m < tickCount (ls' ! i))"
  proof (cases "i = index f")
    case True
    then have "m < n" using low [of i] cf by simp
    then show ?thesis using cls [OF i True] by simp
  next
    case nf: False
    show ?thesis
    proof (cases "i = index c")
      case True
      then show ?thesis using opn [OF i True nf] by simp
    next
      case False
      then show ?thesis using oth nf by simp
    qed
  qed
  ultimately show ?thesis by simp
qed

section \<open>The pass loop\<close>

lemma repairLoop_steps:
  "repairLoop n ls = (ls', conv) \<Longrightarrow>
     passStep\<^sup>*\<^sup>* ls ls' \<and> (conv \<longrightarrow> repairPass ls' = (ls', False))"
proof (induction n arbitrary: ls)
  case 0
  then show ?case by simp
next
  case (Suc n)
  obtain l1 ch where rp: "repairPass ls = (l1, ch)" by (cases "repairPass ls")
  show ?case
  proof (cases ch)
    case True
    then have st: "passStep ls l1" using repairPass_cases [OF rp] by simp
    from Suc.prems rp True have "repairLoop n l1 = (ls', conv)" by simp
    then have "passStep\<^sup>*\<^sup>* l1 ls' \<and> (conv \<longrightarrow> repairPass ls' = (ls', False))"
      by (rule Suc.IH)
    then show ?thesis using st by (meson converse_rtranclp_into_rtranclp)
  next
    case False
    then have "l1 = ls" using repairPass_cases [OF rp] by simp
    moreover from Suc.prems rp False have "ls' = l1" and "conv" by simp_all
    ultimately show ?thesis using rp False by simp
  qed
qed

lemma steps_length: "passStep\<^sup>*\<^sup>* ls ls' \<Longrightarrow> length ls \<le> length ls'"
proof (induction rule: rtranclp_induct)
  case base
  then show ?case by simp
next
  case (step y z)
  then show ?case using passStep_length [of y z] by simp
qed

lemma steps_frame:
  "passStep\<^sup>*\<^sup>* ls ls' \<Longrightarrow> i < length ls \<Longrightarrow> fenceOf i (ls ! i) = None \<Longrightarrow> ls' ! i = ls ! i"
proof (induction rule: rtranclp_induct)
  case base
  then show ?case by simp
next
  case (step y z)
  have yi: "y ! i = ls ! i" using step by simp
  have "i < length y" using steps_length [OF step(1)] step(4) by simp
  moreover have "fenceOf i (y ! i) = None" using yi step(5) by simp
  ultimately have "z ! i = y ! i" using passStep_frame [OF step(2)] by simp
  then show ?case using yi by simp
qed

lemma steps_noNewline: "passStep\<^sup>*\<^sup>* ls ls' \<Longrightarrow> noNewline ls \<Longrightarrow> noNewline ls'"
proof (induction rule: rtranclp_induct)
  case base
  then show ?case by simp
next
  case (step y z)
  then show ?case using passStep_noNewline [of y z] by simp
qed

lemma steps_lineForm:
  "passStep\<^sup>*\<^sup>* ls ls' \<Longrightarrow> i < length ls \<Longrightarrow> lineForm (ls ! i) (ls' ! i)"
proof (induction rule: rtranclp_induct)
  case base
  then show ?case by (simp add: lineForm_def)
next
  case (step y z)
  have "i < length y" using steps_length [OF step(1)] step(4) by simp
  moreover have "lineForm (ls ! i) (y ! i)" using step by simp
  ultimately show ?case using passStep_lineForm [OF step(2)] by simp
qed

lemma steps_appended:
  "passStep\<^sup>*\<^sup>* ls ls' \<Longrightarrow>
     \<forall>i. length ls \<le> i \<and> i < length ls' \<longrightarrow> (\<exists>l k. 0 < k \<and> ls' ! i = newCloser l k)"
proof (induction rule: rtranclp_induct)
  case base
  show ?case by auto
next
  case (step y z)
  show ?case
  proof (intro allI impI)
    fix i assume "length ls \<le> i \<and> i < length z"
    then show "\<exists>l k. 0 < k \<and> z ! i = newCloser l k"
      using passStep_appended [OF step(2) step(3), of i] by simp
  qed
qed

lemma steps_bound:
  "passStep\<^sup>*\<^sup>* ls ls' \<Longrightarrow> i < length ls \<Longrightarrow> minFenceBelow i m ls \<Longrightarrow>
     minFenceBelow i m ls'
     \<and> (lineInfo (ls ! i) \<noteq> [] \<longrightarrow> tickCount (ls ! i) \<le> tickCount (ls' ! i))
     \<and> (tickCount (ls ! i) \<le> tickCount (ls' ! i) \<or> m < tickCount (ls' ! i))"
proof (induction rule: rtranclp_induct)
  case base
  then show ?case by simp
next
  case (step y z)
  have ih: "minFenceBelow i m y"
    "lineInfo (ls ! i) \<noteq> [] \<longrightarrow> tickCount (ls ! i) \<le> tickCount (y ! i)"
    "tickCount (ls ! i) \<le> tickCount (y ! i) \<or> m < tickCount (y ! i)"
    using step by simp_all
  have iy: "i < length y" using steps_length [OF step(1)] step(4) by simp
  have li: "lineInfo (y ! i) = lineInfo (ls ! i)"
    using steps_lineForm [OF step(1) step(4)] by (rule lineForm_props(2))
  have z: "minFenceBelow i m z"
    "z ! i = y ! i \<or> tickCount (y ! i) < tickCount (z ! i)
       \<or> (lineInfo (y ! i) = [] \<and> m < tickCount (z ! i))"
    using passStep_bound [OF step(2) iy ih(1)] by simp_all
  from z(2) have "(lineInfo (ls ! i) \<noteq> [] \<longrightarrow> tickCount (ls ! i) \<le> tickCount (z ! i))
     \<and> (tickCount (ls ! i) \<le> tickCount (z ! i) \<or> m < tickCount (z ! i))"
  proof (elim disjE conjE)
    assume "z ! i = y ! i"
    then show ?thesis using ih(2,3) by simp
  next
    assume "tickCount (y ! i) < tickCount (z ! i)"
    then show ?thesis using ih(2,3) by auto
  next
    assume "lineInfo (y ! i) = []" and "m < tickCount (z ! i)"
    then show ?thesis using li by simp
  qed
  with z(1) show ?case by simp
qed

lemma includes_str_app: "includes_str (a @ p @ b) p"
proof (induction a)
  case Nil
  show ?case
  proof (cases "p @ b")
    case Nil
    then show ?thesis by simp
  next
    case (Cons x xs)
    have "startsWith (p @ b) p" by (simp add: startsWith_def)
    then show ?thesis using Cons by simp
  qed
next
  case (Cons x a)
  then show ?case by simp
qed

lemma split_nl_hd: "\<exists>b. s = hd (split_nl s) @ b"
proof (induction s)
  case Nil
  then show ?case by simp
next
  case (Cons c cs)
  obtain h t where ht: "split_nl cs = h # t"
    using split_nl_nonempty [of cs] by (cases "split_nl cs") auto
  from Cons obtain b where "cs = h @ b" using ht by auto
  then show ?case using ht by auto
qed

lemma split_nl_substring: "l \<in> set (split_nl s) \<Longrightarrow> \<exists>a b. s = a @ l @ b"
proof (induction s arbitrary: l)
  case Nil
  then show ?case by simp
next
  case (Cons c cs)
  obtain h t where ht: "split_nl cs = h # t"
    using split_nl_nonempty [of cs] by (cases "split_nl cs") auto
  have tail: "l \<in> set (split_nl cs) \<Longrightarrow> \<exists>a b. c # cs = a @ l @ b"
  proof -
    assume "l \<in> set (split_nl cs)"
    then obtain a b where "cs = a @ l @ b" using Cons.IH by blast
    then have "c # cs = (c # a) @ l @ b" by simp
    then show ?thesis by blast
  qed
  show ?case
  proof (cases "c = CHR 0x0A")
    case True
    with Cons.prems have "l = [] \<or> l \<in> set (split_nl cs)" by simp
    then show ?thesis
    proof
      assume "l = []"
      then have "c # cs = [] @ l @ (c # cs)" by simp
      then show ?thesis by blast
    qed (rule tail)
  next
    case False
    with Cons.prems ht have "l = c # h \<or> l \<in> set t" by simp
    then show ?thesis
    proof
      assume l: "l = c # h"
      obtain b where "cs = h @ b" using split_nl_hd [of cs] ht by auto
      then have "c # cs = [] @ l @ b" using l by simp
      then show ?thesis by blast
    next
      assume "l \<in> set t"
      then have "l \<in> set (split_nl cs)" using ht by simp
      then show ?thesis by (rule tail)
    qed
  qed
qed

lemma fenceOf_ticks3: "fenceOf i l = Some g \<Longrightarrow> \<exists>a b. l = a @ ''```'' @ b"
proof -
  assume "fenceOf i l = Some g"
  then have "startsWith (trim l) ''```''"
    by (auto simp: fenceOf_def Let_def split: if_splits)
  then have "take (length ''```'') (trim l) = ''```''" by (simp only: startsWith_def)
  then obtain r where r: "trim l = ''```'' @ r" by (metis append_take_drop_id)
  obtain a b where "l = a @ trim l @ b" using trim_decomp by blast
  then have "l = a @ ''```'' @ (r @ b)" using r by simp
  then show ?thesis by blast
qed

lemma no_ticks_no_fence:
  assumes "\<not> includes_str content ''```''"
  shows "fenceLinesFrom 0 (split_nl content) = []"
proof (rule ccontr)
  assume "fenceLinesFrom 0 (split_nl content) \<noteq> []"
  then obtain f where f: "f \<in> set (fenceLinesFrom 0 (split_nl content))"
    by (cases "fenceLinesFrom 0 (split_nl content)") auto
  let ?l = "split_nl content ! index f"
  have "index f < length (split_nl content)" and fo: "fenceOf (index f) ?l = Some f"
    using fenceLines_mem [OF f] by simp_all
  then have "?l \<in> set (split_nl content)" by simp
  then obtain a b where ab: "content = a @ ?l @ b" using split_nl_substring by blast
  obtain a' b' where "?l = a' @ ''```'' @ b'" using fenceOf_ticks3 [OF fo] by blast
  with ab have "content = (a @ a') @ ''```'' @ (b' @ b)" by simp
  then have "includes_str content ''```''" using includes_str_app by metis
  with assms show False by simp
qed

lemma repairMarkdown_eq:
  "repairMarkdown content = join_nl (fst (repairLoop 3 (split_nl content)))"
proof (cases "includes_str content ''```''")
  case True
  then show ?thesis by (simp add: repairMarkdown_def)
next
  case False
  let ?ls = "split_nl content"
  have "fenceLinesFrom 0 ?ls = []" using False by (rule no_ticks_no_fence)
  then have "repairPass ?ls = (?ls, False)" by (simp add: repairPass_def)
  then have "repairLoop 3 ?ls = (?ls, True)" by (simp add: numeral_3_eq_3)
  then show ?thesis using False by (simp add: repairMarkdown_def join_split_nl)
qed

lemma split_repairMarkdown:
  "split_nl (repairMarkdown content) = fst (repairLoop 3 (split_nl content))"
proof -
  let ?ls = "split_nl content"
  obtain ls' conv where rl: "repairLoop 3 ?ls = (ls', conv)" by (cases "repairLoop 3 ?ls")
  then have st: "passStep\<^sup>*\<^sup>* ?ls ls'" using repairLoop_steps by blast
  have "noNewline ?ls" using split_nl_no_newline by (simp add: noNewline_def)
  then have "noNewline ls'" using steps_noNewline [OF st] by simp
  moreover have "ls' \<noteq> []" using steps_length [OF st] split_nl_nonempty [of content] by auto
  ultimately have "split_nl (join_nl ls') = ls'" using split_join_nl by (simp add: noNewline_def)
  then show ?thesis using rl by (simp add: repairMarkdown_eq)
qed

lemma converged_fixpoint:
  assumes "snd (repairLoop 3 (split_nl content))"
  shows "repairPass (split_nl (repairMarkdown content)) = (split_nl (repairMarkdown content), False)"
proof -
  obtain ls' where rl: "repairLoop 3 (split_nl content) = (ls', True)"
    using assms by (cases "repairLoop 3 (split_nl content)") auto
  then have "repairPass ls' = (ls', False)" using repairLoop_steps by blast
  then show ?thesis using rl by (simp add: split_repairMarkdown)
qed

lemma fenceLinesFrom_append:
  "fenceLinesFrom k (xs @ ys) = fenceLinesFrom k xs @ fenceLinesFrom (k + length xs) ys"
  by (induction xs arbitrary: k) (auto split: option.splits)

lemma pairFences_append:
  "pairFences cur bs (xs @ ys) = (case pairFences cur bs xs of (c, b) \<Rightarrow> pairFences c b ys)"
  by (induction cur bs xs rule: pairFences.induct) auto

lemma append_closes:
  assumes "pairFences None [] (fenceLinesFrom 0 ls) = (Some c, bs)"
  shows "fst (pairFences None [] (fenceLinesFrom 0 (ls @ [newCloser (ls ! index c) (lengthF c)]))) = None"
proof -
  let ?x = "newCloser (ls ! index c) (lengthF c)"
  let ?fx = "\<lparr>index = length ls, lengthF = lengthF c, info = [], raw = ?x\<rparr>"
  have "c \<in> set (fenceLinesFrom 0 ls)" using assms by (rule find_None_dangling(2))
  then have "fenceOf (index c) (ls ! index c) = Some c" using fenceLines_mem by blast
  then have "3 \<le> lengthF c" by (rule fenceOf_ge3)
  then have "fenceOf (length ls) ?x = Some ?fx" by (rule fenceOf_newCloser)
  then have "fenceLinesFrom 0 (ls @ [?x]) = fenceLinesFrom 0 ls @ [?fx]"
    by (simp add: fenceLinesFrom_append)
  then show ?thesis using assms by (simp add: pairFences_append)
qed

lemma repairPass_append_closes:
  assumes "fst (pairFences None [] (fenceLinesFrom 0 ls)) \<noteq> None"
  shows "fst (pairFences None [] (fenceLinesFrom 0 (fst (repairPass ls)))) = None"
proof -
  from assms obtain c bs where pf: "pairFences None [] (fenceLinesFrom 0 ls) = (Some c, bs)"
    by (cases "pairFences None [] (fenceLinesFrom 0 ls)") auto
  then show ?thesis using repairPass_dangling [OF pf] append_closes [OF pf] by simp
qed

lemma repairLoop_closed:
  "repairLoop n ls = (ls', conv) \<Longrightarrow> 0 < n \<Longrightarrow> \<not> lastPassRewrites n ls \<Longrightarrow>
     fst (pairFences None [] (fenceLinesFrom 0 ls')) = None"
proof (induction n arbitrary: ls)
  case 0
  then show ?case by simp
next
  case (Suc n)
  obtain l1 ch where rp: "repairPass ls = (l1, ch)" by (cases "repairPass ls")
  show ?case
  proof (cases ch)
    case False
    then have "l1 = ls \<and> fst (pairFences None [] (fenceLinesFrom 0 ls)) = None"
      using repairPass_cases [OF rp] by simp
    moreover have "ls' = l1" using Suc.prems(1) rp False by simp
    ultimately show ?thesis by simp
  next
    case True
    show ?thesis
    proof (cases "n = 0")
      case n0: True
      then have "ls' = l1" using Suc.prems(1) rp True by simp
      moreover have "fst (pairFences None [] (fenceLinesFrom 0 ls)) \<noteq> None"
        using Suc.prems(3) rp True n0 by simp
      then have "fst (pairFences None [] (fenceLinesFrom 0 (fst (repairPass ls)))) = None"
        by (rule repairPass_append_closes)
      ultimately show ?thesis using rp by simp
    next
      case False
      then have "repairLoop n l1 = (ls', conv)" and "0 < n" and "\<not> lastPassRewrites n l1"
        using Suc.prems rp True by simp_all
      then show ?thesis by (rule Suc.IH)
    qed
  qed
qed

lemma converged_not_rewrites: "snd (repairLoop n ls) \<Longrightarrow> \<not> lastPassRewrites n ls"
proof (induction n arbitrary: ls)
  case 0
  then show ?case by simp
next
  case (Suc n)
  obtain l1 ch where rp: "repairPass ls = (l1, ch)" by (cases "repairPass ls")
  show ?case
  proof (cases ch)
    case False
    then show ?thesis using rp by simp
  next
    case True
    then have s: "snd (repairLoop n l1)" using Suc.prems rp by simp
    then have "n \<noteq> 0" by (cases n) auto
    moreover have "\<not> lastPassRewrites n l1" using s by (rule Suc.IH)
    ultimately show ?thesis using rp True by simp
  qed
qed

section \<open>Properties of repairMarkdown\<close>

text \<open>
  Claim C5, as stated: a fence line is modified only by changing its backtick run. In
  three adjacent three-backtick lines of which the last has two trailing spaces, the
  last line is a fence line with empty info string; it comes out as four backticks
  without the trailing spaces, which is not the input line with another run.
\<close>

theorem frame_counterexample:
  "fenceOf 2 (split_nl ''```\<newline>```\<newline>```  '' ! 2)
     = Some \<lparr>index = 2, lengthF = 3, info = [], raw = ''```  ''\<rparr>
   \<and> split_nl (repairMarkdown ''```\<newline>```\<newline>```  '') ! 2 = ''````''
   \<and> takeWhile is_ws ''```  '' @ repeatTick 4 @ dropWhile is_tick (dropWhile is_ws ''```  '')
     = ''````  ''
   \<and> split_nl (repairMarkdown ''```\<newline>```\<newline>```  '') ! 2 \<noteq> ''````  ''"
  by code_simp

text \<open>
  Claim C5, amended. The output has at least as many lines as the input, and for every
  position \<open>i\<close>: a line of the input that is not a fence line stands unchanged at its
  position in the output. A fence line of the input is left as it is, or it gets
  another backtick run while its leading white space and everything behind the run
  are kept, or, only when its info string is empty, it is rebuilt as its leading white
  space followed by a backtick run (what stood behind the run, trailing white space,
  is dropped). Every line of the output behind the input's lines is white space
  followed by a backtick run.
\<close>

theorem repair_frame:
  "length (split_nl content) \<le> length (split_nl (repairMarkdown content))
   \<and> (i < length (split_nl content) \<longrightarrow> fenceOf i (split_nl content ! i) = None \<longrightarrow>
        split_nl (repairMarkdown content) ! i = split_nl content ! i)
   \<and> (i < length (split_nl content) \<longrightarrow>
        (\<forall>f. fenceOf i (split_nl content ! i) = Some f \<longrightarrow>
           split_nl (repairMarkdown content) ! i = split_nl content ! i
         \<or> (\<exists>k. split_nl (repairMarkdown content) ! i
               = takeWhile is_ws (split_nl content ! i) @ repeatTick k
                 @ dropWhile is_tick (dropWhile is_ws (split_nl content ! i)))
         \<or> (info f = [] \<and>
             (\<exists>k. split_nl (repairMarkdown content) ! i
               = takeWhile is_ws (split_nl content ! i) @ repeatTick k))))
   \<and> (length (split_nl content) \<le> i \<longrightarrow> i < length (split_nl (repairMarkdown content)) \<longrightarrow>
        (\<exists>w k. (\<forall>c\<in>set w. is_ws c) \<and> split_nl (repairMarkdown content) ! i = w @ repeatTick k))"
proof -
  let ?ls = "split_nl content"
  obtain ls' conv where rl: "repairLoop 3 ?ls = (ls', conv)" by (cases "repairLoop 3 ?ls")
  then have st: "passStep\<^sup>*\<^sup>* ?ls ls'" using repairLoop_steps by blast
  have out: "split_nl (repairMarkdown content) = ls'" using rl by (simp add: split_repairMarkdown)
  have c1: "length ?ls \<le> length ls'" using steps_length [OF st] .
  have c2: "i < length ?ls \<longrightarrow> fenceOf i (?ls ! i) = None \<longrightarrow> ls' ! i = ?ls ! i"
    using steps_frame [OF st] by blast
  have c3: "i < length ?ls \<longrightarrow>
        (\<forall>f. fenceOf i (?ls ! i) = Some f \<longrightarrow>
           ls' ! i = ?ls ! i
         \<or> (\<exists>k. ls' ! i = takeWhile is_ws (?ls ! i) @ repeatTick k
                 @ dropWhile is_tick (dropWhile is_ws (?ls ! i)))
         \<or> (info f = [] \<and> (\<exists>k. ls' ! i = takeWhile is_ws (?ls ! i) @ repeatTick k)))"
  proof (intro impI allI)
    fix f assume i: "i < length ?ls" and f: "fenceOf i (?ls ! i) = Some f"
    have lf: "lineForm (?ls ! i) (ls' ! i)" using steps_lineForm [OF st i] .
    have inf: "lineInfo (?ls ! i) = info f" using fenceOf_lineInfo [OF f] by simp
    from lf show "ls' ! i = ?ls ! i
         \<or> (\<exists>k. ls' ! i = takeWhile is_ws (?ls ! i) @ repeatTick k
                 @ dropWhile is_tick (dropWhile is_ws (?ls ! i)))
         \<or> (info f = [] \<and> (\<exists>k. ls' ! i = takeWhile is_ws (?ls ! i) @ repeatTick k))"
      unfolding lineForm_def newOpener_def newCloser_def restOf_def inf by blast
  qed
  have c4: "length ?ls \<le> i \<longrightarrow> i < length ls' \<longrightarrow>
        (\<exists>w k. (\<forall>c\<in>set w. is_ws c) \<and> ls' ! i = w @ repeatTick k)"
  proof (intro impI)
    assume "length ?ls \<le> i" and "i < length ls'"
    then obtain l k where "ls' ! i = newCloser l k" using steps_appended [OF st] by blast
    then have "(\<forall>c\<in>set (takeWhile is_ws l). is_ws c) \<and> ls' ! i = takeWhile is_ws l @ repeatTick k"
      using takeWhile_ws_all by (simp add: newCloser_def)
    then show "\<exists>w k. (\<forall>c\<in>set w. is_ws c) \<and> ls' ! i = w @ repeatTick k" by blast
  qed
  show ?thesis unfolding out using c1 c2 c3 c4 by (intro conjI)
qed

theorem repair_frame_witness:
  "repairMarkdown ''```\<newline>```\<newline>```  \<newline>tail'' = ''````\<newline>```\<newline>````\<newline>tail\<newline>```\<newline>```''
   \<and> length (split_nl ''```\<newline>```\<newline>```  \<newline>tail'')
       \<le> length (split_nl (repairMarkdown ''```\<newline>```\<newline>```  \<newline>tail''))
   \<and> fenceOf 3 (split_nl ''```\<newline>```\<newline>```  \<newline>tail'' ! 3) = None
   \<and> split_nl (repairMarkdown ''```\<newline>```\<newline>```  \<newline>tail'') ! 3
       = split_nl ''```\<newline>```\<newline>```  \<newline>tail'' ! 3
   \<and> fenceOf 2 (split_nl ''```\<newline>```\<newline>```  \<newline>tail'' ! 2)
       = Some \<lparr>index = 2, lengthF = 3, info = [], raw = ''```  ''\<rparr>
   \<and> (split_nl (repairMarkdown ''```\<newline>```\<newline>```  \<newline>tail'') ! 2
         = split_nl ''```\<newline>```\<newline>```  \<newline>tail'' ! 2
       \<or> (\<exists>k. split_nl (repairMarkdown ''```\<newline>```\<newline>```  \<newline>tail'') ! 2
               = takeWhile is_ws (split_nl ''```\<newline>```\<newline>```  \<newline>tail'' ! 2) @ repeatTick k
                 @ dropWhile is_tick (dropWhile is_ws (split_nl ''```\<newline>```\<newline>```  \<newline>tail'' ! 2)))
       \<or> (\<exists>k. split_nl (repairMarkdown ''```\<newline>```\<newline>```  \<newline>tail'') ! 2
               = takeWhile is_ws (split_nl ''```\<newline>```\<newline>```  \<newline>tail'' ! 2) @ repeatTick k))
   \<and> split_nl (repairMarkdown ''```\<newline>```\<newline>```  \<newline>tail'') ! 2 = ''````''
   \<and> (\<exists>w k. list_all is_ws w
         \<and> split_nl (repairMarkdown ''```\<newline>```\<newline>```  \<newline>tail'') ! 4 = w @ repeatTick k)"
proof -
  let ?c = "''```\<newline>```\<newline>```  \<newline>tail''"
  have e: "repairMarkdown ?c = ''````\<newline>```\<newline>````\<newline>tail\<newline>```\<newline>```''" by code_simp
  have l: "length (split_nl ?c) = 4" by code_simp
  have lo: "length (split_nl (repairMarkdown ?c)) = 6" by code_simp
  have 3: "fenceOf 3 (split_nl ?c ! 3) = None" by code_simp
  have 2: "fenceOf 2 (split_nl ?c ! 2) = Some \<lparr>index = 2, lengthF = 3, info = [], raw = ''```  ''\<rparr>"
    by code_simp
  have o2: "split_nl (repairMarkdown ?c) ! 2 = ''````''" by code_simp
  have p1: "length (split_nl ?c) \<le> length (split_nl (repairMarkdown ?c))"
    using repair_frame [of ?c 3] by blast
  have p2: "split_nl (repairMarkdown ?c) ! 3 = split_nl ?c ! 3"
    using repair_frame [of ?c 3] l 3 by simp
  have "split_nl (repairMarkdown ?c) ! 2 = split_nl ?c ! 2
       \<or> (\<exists>k. split_nl (repairMarkdown ?c) ! 2
               = takeWhile is_ws (split_nl ?c ! 2) @ repeatTick k
                 @ dropWhile is_tick (dropWhile is_ws (split_nl ?c ! 2)))
       \<or> (info \<lparr>index = 2, lengthF = 3, info = [], raw = ''```  ''\<rparr> = [] \<and>
           (\<exists>k. split_nl (repairMarkdown ?c) ! 2
               = takeWhile is_ws (split_nl ?c ! 2) @ repeatTick k))"
    using repair_frame [of ?c 2] l 2 by simp
  then have p3: "split_nl (repairMarkdown ?c) ! 2 = split_nl ?c ! 2
       \<or> (\<exists>k. split_nl (repairMarkdown ?c) ! 2
               = takeWhile is_ws (split_nl ?c ! 2) @ repeatTick k
                 @ dropWhile is_tick (dropWhile is_ws (split_nl ?c ! 2)))
       \<or> (\<exists>k. split_nl (repairMarkdown ?c) ! 2
               = takeWhile is_ws (split_nl ?c ! 2) @ repeatTick k)"
    by blast
  have "\<exists>w k. (\<forall>c\<in>set w. is_ws c) \<and> split_nl (repairMarkdown ?c) ! 4 = w @ repeatTick k"
    using repair_frame [of ?c 4] l lo by simp
  then have p4: "\<exists>w k. list_all is_ws w \<and> split_nl (repairMarkdown ?c) ! 4 = w @ repeatTick k"
    by (simp only: list_all_iff)
  show ?thesis using e p1 3 p2 2 p3 o2 p4 by (intro conjI)
qed

text \<open>
  Claim C3, as stated: repairing twice gives the same text as repairing once. Three
  adjacent three-backtick lines use up all three passes, and a second call goes on
  rewriting.
\<close>

theorem idempotence_counterexample:
  "repairMarkdown ''```\<newline>```\<newline>```'' = ''````\<newline>```\<newline>````\<newline>```\<newline>```''
   \<and> repairMarkdown (repairMarkdown ''```\<newline>```\<newline>```'')
       = ''``````\<newline>```\<newline>````\<newline>`````\<newline>``````\<newline>```''
   \<and> repairMarkdown (repairMarkdown ''```\<newline>```\<newline>```'') \<noteq> repairMarkdown ''```\<newline>```\<newline>```''"
  by code_simp

text \<open>
  Claim C3, amended. When the pass loop on a text ends because a pass changed nothing
  (and not because the three passes were used up), repairing the repaired text again
  changes nothing.
\<close>

theorem idempotent_when_converged:
  assumes "snd (repairLoop 3 (split_nl content))"
  shows "repairMarkdown (repairMarkdown content) = repairMarkdown content"
proof -
  let ?out = "repairMarkdown content"
  have "repairPass (split_nl ?out) = (split_nl ?out, False)"
    using assms by (rule converged_fixpoint)
  then have "repairLoop 3 (split_nl ?out) = (split_nl ?out, True)" by (simp add: numeral_3_eq_3)
  then have "repairMarkdown ?out = join_nl (split_nl ?out)" by (simp add: repairMarkdown_eq)
  then show ?thesis by (simp add: join_split_nl)
qed

theorem idempotent_when_converged_witness:
  "snd (repairLoop 3 (split_nl ''```js\<newline>x''))
   \<and> repairMarkdown ''```js\<newline>x'' = ''```js\<newline>x\<newline>```''
   \<and> repairMarkdown (repairMarkdown ''```js\<newline>x'') = repairMarkdown ''```js\<newline>x''"
proof -
  have h: "snd (repairLoop 3 (split_nl ''```js\<newline>x''))" by code_simp
  have e: "repairMarkdown ''```js\<newline>x'' = ''```js\<newline>x\<newline>```''" by code_simp
  show ?thesis using idempotent_when_converged [OF h] h e by simp
qed

text \<open>
  Claim C4, as stated: after the repair every block has a closer of equal length or an
  appended one, and no block is left unclosed. For a three-backtick line followed by
  two four-backtick lines, the third pass is a rewrite of step 3 and the three passes
  end with the appended closing fence as a dangling opener: pairing the fence lines of
  the output leaves line 3 open. And a three-backtick opener closed by a
  five-backtick line is left as it is: its closer is longer than the opener, and
  nothing is appended.
\<close>

theorem closed_block_counterexample:
  "repairMarkdown ''```\<newline>````\<newline>````'' = ''`````\<newline>````\<newline>`````\<newline>````''
   \<and> fst (pairFences None [] (fenceLinesFrom 0 (split_nl (repairMarkdown ''```\<newline>````\<newline>````''))))
       = Some \<lparr>index = 3, lengthF = 4, info = [], raw = ''````''\<rparr>
   \<and> lastPassRewrites 3 (split_nl ''```\<newline>````\<newline>````'')
   \<and> repairMarkdown ''```\<newline>x\<newline>`````'' = ''```\<newline>x\<newline>`````''
   \<and> pairFences None [] (fenceLinesFrom 0 (split_nl ''```\<newline>x\<newline>`````''))
       = (None, [\<lparr>start = 0, endIdx = 2, fenceLength = 3\<rparr>])"
  by code_simp

text \<open>
  Claim C4, amended. Unless the pass loop uses all three passes and its third pass is
  a rewrite of step 3 or 4 (a pass that changes the lines although it finds every
  opener paired), every block of the output is closed: pairing the fence lines of the
  output (a closer has an empty info string and at least as many backticks as its
  opener) leaves no opener dangling. This covers every run that ends because a pass
  changed nothing, and every run whose last pass appends a closing line: a pass that
  finds a dangling opener appends a closing line, and the lines it leaves pair with
  no opener dangling.
\<close>

theorem closed_blocks:
  "(\<not> lastPassRewrites 3 (split_nl content) \<longrightarrow>
      fst (pairFences None [] (fenceLinesFrom 0 (split_nl (repairMarkdown content)))) = None)
   \<and> (snd (repairLoop 3 (split_nl content)) \<longrightarrow> \<not> lastPassRewrites 3 (split_nl content))
   \<and> (fst (pairFences None [] (fenceLinesFrom 0 ls)) \<noteq> None \<longrightarrow>
      fst (pairFences None [] (fenceLinesFrom 0 (fst (repairPass ls)))) = None)"
proof -
  let ?ls = "split_nl content"
  obtain ls' conv where rl: "repairLoop 3 ?ls = (ls', conv)" by (cases "repairLoop 3 ?ls")
  have out: "split_nl (repairMarkdown content) = ls'" using rl by (simp add: split_repairMarkdown)
  have c1: "\<not> lastPassRewrites 3 ?ls \<longrightarrow> fst (pairFences None [] (fenceLinesFrom 0 ls')) = None"
    using repairLoop_closed [OF rl] by simp
  have c2: "snd (repairLoop 3 ?ls) \<longrightarrow> \<not> lastPassRewrites 3 ?ls"
    using converged_not_rewrites by blast
  have c3: "fst (pairFences None [] (fenceLinesFrom 0 ls)) \<noteq> None \<longrightarrow>
      fst (pairFences None [] (fenceLinesFrom 0 (fst (repairPass ls)))) = None"
    using repairPass_append_closes by blast
  show ?thesis unfolding out using c1 c2 c3 by (intro conjI)
qed

theorem closed_blocks_witness:
  "\<not> snd (repairLoop 3 (split_nl ''```markdown\<newline># Nested\<newline>```bash\<newline>echo\<newline>```\<newline>```''))
   \<and> \<not> lastPassRewrites 3 (split_nl ''```markdown\<newline># Nested\<newline>```bash\<newline>echo\<newline>```\<newline>```'')
   \<and> repairMarkdown ''```markdown\<newline># Nested\<newline>```bash\<newline>echo\<newline>```\<newline>```''
       = ''````markdown\<newline># Nested\<newline>```bash\<newline>echo\<newline>```\<newline>````\<newline>```\<newline>```''
   \<and> fst (pairFences None [] (fenceLinesFrom 0 (split_nl
         (repairMarkdown ''```markdown\<newline># Nested\<newline>```bash\<newline>echo\<newline>```\<newline>```'')))) = None
   \<and> snd (repairLoop 3 (split_nl ''````md\<newline>```\<newline>x''))
   \<and> \<not> lastPassRewrites 3 (split_nl ''````md\<newline>```\<newline>x'')
   \<and> fst (pairFences None [] (fenceLinesFrom 0 (split_nl (repairMarkdown ''````md\<newline>```\<newline>x'')))) = None
   \<and> fst (pairFences None [] (fenceLinesFrom 0 [''```js'', ''x'']))
       = Some \<lparr>index = 0, lengthF = 3, info = ''js'', raw = ''```js''\<rparr>
   \<and> fst (pairFences None [] (fenceLinesFrom 0 (fst (repairPass [''```js'', ''x''])))) = None"
proof -
  let ?c = "''```markdown\<newline># Nested\<newline>```bash\<newline>echo\<newline>```\<newline>```''"
  let ?d = "''````md\<newline>```\<newline>x''"
  have 1: "\<not> snd (repairLoop 3 (split_nl ?c))" by code_simp
  have 2: "\<not> lastPassRewrites 3 (split_nl ?c)" by code_simp
  have 3: "repairMarkdown ?c
       = ''````markdown\<newline># Nested\<newline>```bash\<newline>echo\<newline>```\<newline>````\<newline>```\<newline>```''"
    by code_simp
  have 4: "fst (pairFences None [] (fenceLinesFrom 0 [''```js'', ''x'']))
       = Some \<lparr>index = 0, lengthF = 3, info = ''js'', raw = ''```js''\<rparr>"
    by code_simp
  have 5: "fst (pairFences None [] (fenceLinesFrom 0 (split_nl (repairMarkdown ?c)))) = None"
    using closed_blocks [of ?c] 2 by blast
  have 6: "fst (pairFences None [] (fenceLinesFrom 0 (fst (repairPass [''```js'', ''x''])))) = None"
    using closed_blocks [of ?c "[''```js'', ''x'']"] 4 by simp
  have 7: "snd (repairLoop 3 (split_nl ?d))" by code_simp
  have 8: "\<not> lastPassRewrites 3 (split_nl ?d)" using closed_blocks [of ?d] 7 by blast
  have 9: "fst (pairFences None [] (fenceLinesFrom 0 (split_nl (repairMarkdown ?d)))) = None"
    using closed_blocks [of ?d] 8 by blast
  show ?thesis using 1 2 3 5 7 8 9 4 6 by (intro conjI)
qed

text \<open>
  Claim C1, as stated: a line that is a fence line in input and output never has a
  shorter backtick run in the output. The five-backtick line behind an adjacent
  three-backtick block has an empty info string and is rewritten as a closing line
  with four backticks, the new length of that block's opener.
\<close>

theorem fence_length_counterexample:
  "fenceOf 2 (split_nl ''```\<newline>```\<newline>`````'' ! 2)
     = Some \<lparr>index = 2, lengthF = 5, info = [], raw = ''`````''\<rparr>
   \<and> repairMarkdown ''```\<newline>```\<newline>`````'' = ''````\<newline>```\<newline>````\<newline>`````\<newline>`````''
   \<and> fenceOf 2 (split_nl (repairMarkdown ''```\<newline>```\<newline>`````'') ! 2)
     = Some \<lparr>index = 2, lengthF = 4, info = [], raw = ''````''\<rparr>"
  by code_simp

text \<open>
  Claim C1, amended. A line that is a fence line in input and output keeps its info
  string. If the info string is not empty, the backtick run in the output is at least
  as long as in the input: no rewrite ever shrinks such a fence. If the info string
  is empty, the run in the output is at least as long as in the input, or it is
  longer than every lower bound \<open>m\<close> of the runs of the fence lines that stand before
  the line in the input (such a line can be rewritten as the closing line of a block
  opened before it, with one backtick more than that opener at least); in particular
  the first fence line of a text never shrinks.
\<close>

theorem fence_length_bound:
  assumes "i < length (split_nl content)"
    and "fenceOf i (split_nl content ! i) = Some f"
    and "fenceOf i (split_nl (repairMarkdown content) ! i) = Some f'"
    and "\<forall>j<i. \<forall>g. fenceOf j (split_nl content ! j) = Some g \<longrightarrow> m \<le> lengthF g"
  shows "info f' = info f
       \<and> (info f \<noteq> [] \<longrightarrow> lengthF f \<le> lengthF f')
       \<and> (lengthF f \<le> lengthF f' \<or> m < lengthF f')"
proof -
  let ?ls = "split_nl content"
  obtain ls' conv where rl: "repairLoop 3 ?ls = (ls', conv)" by (cases "repairLoop 3 ?ls")
  then have st: "passStep\<^sup>*\<^sup>* ?ls ls'" using repairLoop_steps by blast
  have out: "split_nl (repairMarkdown content) = ls'" using rl by (simp add: split_repairMarkdown)
  have f': "fenceOf i (ls' ! i) = Some f'" using assms(3) out by simp
  have t: "lengthF f = tickCount (?ls ! i)" using assms(2) by (rule fenceOf_tickCount(1))
  have t': "lengthF f' = tickCount (ls' ! i)" using f' by (rule fenceOf_tickCount(1))
  have n: "info f = lineInfo (?ls ! i)" using assms(2) by (rule fenceOf_lineInfo)
  have n': "info f' = lineInfo (ls' ! i)" using f' by (rule fenceOf_lineInfo)
  have "lineInfo (ls' ! i) = lineInfo (?ls ! i)"
    using steps_lineForm [OF st assms(1)] by (rule lineForm_props(2))
  then have c1: "info f' = info f" using n n' by simp
  have "minFenceBelow i m ?ls" using assms(4) by (simp add: minFenceBelow_def)
  then have "(lineInfo (?ls ! i) \<noteq> [] \<longrightarrow> tickCount (?ls ! i) \<le> tickCount (ls' ! i))
     \<and> (tickCount (?ls ! i) \<le> tickCount (ls' ! i) \<or> m < tickCount (ls' ! i))"
    using steps_bound [OF st assms(1)] by blast
  then have "(info f \<noteq> [] \<longrightarrow> lengthF f \<le> lengthF f')
     \<and> (lengthF f \<le> lengthF f' \<or> m < lengthF f')"
    unfolding t t' n .
  with c1 show ?thesis by simp
qed

theorem fence_length_bound_witness:
  "fenceOf 0 (split_nl ''```js\<newline>a\<newline>```\<newline>```'' ! 0)
     = Some \<lparr>index = 0, lengthF = 3, info = ''js'', raw = ''```js''\<rparr>
   \<and> fenceOf 0 (split_nl (repairMarkdown ''```js\<newline>a\<newline>```\<newline>```'') ! 0)
     = Some \<lparr>index = 0, lengthF = 4, info = ''js'', raw = ''````js''\<rparr>
   \<and> lengthF \<lparr>index = 0, lengthF = 3, info = ''js'', raw = ''```js''\<rparr>
       \<le> lengthF \<lparr>index = 0, lengthF = 4, info = ''js'', raw = ''````js''\<rparr>
   \<and> fenceOf 3 (split_nl ''```js\<newline>a\<newline>```\<newline>```'' ! 3)
     = Some \<lparr>index = 3, lengthF = 3, info = [], raw = ''```''\<rparr>
   \<and> fenceOf 3 (split_nl (repairMarkdown ''```js\<newline>a\<newline>```\<newline>```'') ! 3)
     = Some \<lparr>index = 3, lengthF = 4, info = [], raw = ''````''\<rparr>
   \<and> (lengthF \<lparr>index = 3, lengthF = 3, info = [], raw = ''```''\<rparr>
         \<le> lengthF \<lparr>index = 3, lengthF = 4, info = [], raw = ''````''\<rparr>
       \<or> 3 < lengthF \<lparr>index = 3, lengthF = 4, info = [], raw = ''````''\<rparr>)"
proof -
  let ?c = "''```js\<newline>a\<newline>```\<newline>```''"
  have a1: "0 < length (split_nl ?c)" by code_simp
  have a2: "fenceOf 0 (split_nl ?c ! 0) = Some \<lparr>index = 0, lengthF = 3, info = ''js'', raw = ''```js''\<rparr>"
    by code_simp
  have a3: "fenceOf 0 (split_nl (repairMarkdown ?c) ! 0)
     = Some \<lparr>index = 0, lengthF = 4, info = ''js'', raw = ''````js''\<rparr>"
    by code_simp
  have a4: "\<forall>j<0. \<forall>g. fenceOf j (split_nl ?c ! j) = Some g \<longrightarrow> 3 \<le> lengthF g" by simp
  have b1: "3 < length (split_nl ?c)" by code_simp
  have b2: "fenceOf 3 (split_nl ?c ! 3) = Some \<lparr>index = 3, lengthF = 3, info = [], raw = ''```''\<rparr>"
    by code_simp
  have b3: "fenceOf 3 (split_nl (repairMarkdown ?c) ! 3)
     = Some \<lparr>index = 3, lengthF = 4, info = [], raw = ''````''\<rparr>"
    by code_simp
  have b4: "\<forall>j<3. \<forall>g. fenceOf j (split_nl ?c ! j) = Some g \<longrightarrow> 3 \<le> lengthF g"
    using fenceOf_ge3 by blast
  have a: "lengthF \<lparr>index = 0, lengthF = 3, info = ''js'', raw = ''```js''\<rparr>
       \<le> lengthF \<lparr>index = 0, lengthF = 4, info = ''js'', raw = ''````js''\<rparr>"
    using fence_length_bound [OF a1 a2 a3 a4] by simp
  have b: "lengthF \<lparr>index = 3, lengthF = 3, info = [], raw = ''```''\<rparr>
         \<le> lengthF \<lparr>index = 3, lengthF = 4, info = [], raw = ''````''\<rparr>
       \<or> 3 < lengthF \<lparr>index = 3, lengthF = 4, info = [], raw = ''````''\<rparr>"
    using fence_length_bound [OF b1 b2 b3 b4] by blast
  show ?thesis using a2 a3 a b2 b3 b by (intro conjI)
qed

end
